theory Spec2Isabelle
  imports Main
begin

section \<open>Python strings and the Unicode services of the runtime\<close>

text \<open>
  A Python \<open>str\<close> is a sequence of Unicode code points. Extracted text is arbitrary
  Unicode, so a string is a list of code points, each a natural number. ASCII literals
  of the scripts are written through \<open>u\<close>.
\<close>

type_synonym codepoint = nat
type_synonym pystr = "codepoint list"

definition u :: "string \<Rightarrow> pystr" where
  "u s = map of_char s"

text \<open>
  The scripts call four services of the interpreter that are driven by the Unicode
  character database: \<open>unicodedata.normalize("NFC", _)\<close>, \<open>str.isprintable\<close>, the
  whitespace test behind \<open>str.strip()\<close>, and \<open>str.lower\<close>. None of them is code of the
  repository; they are parameters of the model.
\<close>

record unicode_db =
  normalize_NFC :: "pystr \<Rightarrow> pystr"
  isprintable :: "codepoint \<Rightarrow> bool"
  isspace :: "codepoint \<Rightarrow> bool"
  str_lower :: "pystr \<Rightarrow> pystr"

text \<open>\<open>s.strip()\<close>: drop the whitespace code points at both ends.\<close>

definition str_strip :: "unicode_db \<Rightarrow> pystr \<Rightarrow> pystr" where
  "str_strip db s = rev (dropWhile (isspace db) (rev (dropWhile (isspace db) s)))"

section \<open>The sanitizer\<close>

text \<open>
  \<^verbatim>\<open>
  def sanitize_text(text):
      text = unicodedata.normalize("NFC", text)
      cleaned_chars = []
      for ch in text:
          if ch.isprintable() or ch in ['\n', '\r', '\t']:
              cleaned_chars.append(ch)
          else:
              cleaned_chars.append(" ")
      sanitized = "".join(cleaned_chars).strip()
      return sanitized
  \<close>
  The loop threads the list \<open>cleaned_chars\<close>; joining a list of one-character strings
  with the empty separator is the list itself.
\<close>

fun clean_loop :: "unicode_db \<Rightarrow> pystr \<Rightarrow> pystr \<Rightarrow> pystr" where
  "clean_loop db cleaned_chars [] = cleaned_chars"
| "clean_loop db cleaned_chars (ch # text) =
     (if isprintable db ch \<or> ch \<in> set [10, 13, 9]
      then clean_loop db (cleaned_chars @ [ch]) text
      else clean_loop db (cleaned_chars @ [32]) text)"

definition sanitize_text :: "unicode_db \<Rightarrow> pystr \<Rightarrow> pystr" where
  "sanitize_text db text =
     (let text' = normalize_NFC db text;
          cleaned_chars = clean_loop db [] text'
      in str_strip db cleaned_chars)"

text \<open>A string is in canonical composed form when normalisation leaves it alone.\<close>

definition nfc_form :: "unicode_db \<Rightarrow> pystr \<Rightarrow> bool" where
  "nfc_form db s \<longleftrightarrow> normalize_NFC db s = s"

text \<open>The code points the sanitizer keeps.\<close>

definition kept :: "unicode_db \<Rightarrow> codepoint \<Rightarrow> bool" where
  "kept db ch \<longleftrightarrow> isprintable db ch \<or> ch \<in> set [10, 13, 9]"

definition scrub :: "unicode_db \<Rightarrow> codepoint \<Rightarrow> codepoint" where
  "scrub db ch = (if kept db ch then ch else 32)"

text \<open>
  The facts about the Unicode character database that the guarantees of the sanitizer
  rest on:
  \<^item> normalisation is idempotent (Unicode Standard Annex 15);
  \<^item> the normal form is closed under taking substrings (Annex 15);
  \<^item> putting U+0020 in the place of one non-printable code point of a normalised
    string leaves it normalised: non-printable code points (categories C and Z) have
    combining class 0, as U+0020 has, and U+0020 takes part in no canonical
    composition;
  \<^item> U+0020 is printable (the one separator \<open>str.isprintable\<close> accepts).
\<close>

definition ucd_facts :: "unicode_db \<Rightarrow> bool" where
  "ucd_facts db \<longleftrightarrow>
     (\<forall>s. nfc_form db (normalize_NFC db s)) \<and>
     (\<forall>a b c. nfc_form db (a @ b @ c) \<longrightarrow> nfc_form db b) \<and>
     (\<forall>a ch b. nfc_form db (a @ ch # b) \<and> \<not> isprintable db ch \<longrightarrow> nfc_form db (a @ 32 # b)) \<and>
     isprintable db 32"

text \<open>
  A database that agrees with CPython on ASCII text: ASCII is its own normal form,
  the printable code points are U+0020 to U+007E, whitespace is TAB, LF, VT, FF, CR,
  FS, GS, RS, US and SPACE, and lowering maps A-Z to a-z.
\<close>

definition ascii_lower :: "codepoint \<Rightarrow> codepoint" where
  "ascii_lower c = (if 65 \<le> c \<and> c \<le> 90 then c + 32 else c)"

definition ascii_db :: unicode_db where
  "ascii_db = \<lparr> normalize_NFC = (\<lambda>s. s),
                isprintable = (\<lambda>c. 32 \<le> c \<and> c < 127),
                isspace = (\<lambda>c. c \<in> set [9, 10, 11, 12, 13, 28, 29, 30, 31, 32]),
                str_lower = map ascii_lower \<rparr>"

section \<open>Paths: the functions of \<open>posixpath\<close> the scripts call\<close>

text \<open>
  \<open>p.rfind(c)\<close> for a one-character needle: the highest index holding \<open>c\<close>, or \<open>-1\<close>.
\<close>

fun rfind_from :: "codepoint \<Rightarrow> pystr \<Rightarrow> int \<Rightarrow> int \<Rightarrow> int" where
  "rfind_from c [] i best = best"
| "rfind_from c (x # xs) i best = rfind_from c xs (i + 1) (if x = c then i else best)"

definition rfind :: "pystr \<Rightarrow> codepoint \<Rightarrow> int" where
  "rfind p c = rfind_from c p 0 (- 1)"

text \<open>
  \<open>os.path.splitext\<close> on POSIX (\<open>genericpath._splitext\<close> with separator \<open>/\<close>, no
  alternative separator, extension separator \<open>.\<close>):
  \<^verbatim>\<open>
  sepIndex = p.rfind(sep)
  dotIndex = p.rfind(extsep)
  if dotIndex > sepIndex:
      # skip all leading dots
      filenameIndex = sepIndex + 1
      while filenameIndex < dotIndex:
          if p[filenameIndex:filenameIndex+1] != extsep:
              return p[:dotIndex], p[dotIndex:]
          filenameIndex += 1
  return p, p[:0]
  \<close>
\<close>

function skip_leading_dots :: "pystr \<Rightarrow> nat \<Rightarrow> nat \<Rightarrow> pystr \<times> pystr" where
  "skip_leading_dots p filenameIndex dotIndex =
     (if filenameIndex < dotIndex
      then (if take 1 (drop filenameIndex p) \<noteq> [46]
            then (take dotIndex p, drop dotIndex p)
            else skip_leading_dots p (filenameIndex + 1) dotIndex)
      else (p, []))"
  by pat_completeness auto
termination
  by (relation "measure (\<lambda>(p, i, d). d - i)") auto

declare skip_leading_dots.simps [simp del]

definition splitext :: "pystr \<Rightarrow> pystr \<times> pystr" where
  "splitext p =
     (let sepIndex = rfind p 47;
          dotIndex = rfind p 46
      in if dotIndex > sepIndex
         then skip_leading_dots p (nat (sepIndex + 1)) (nat dotIndex)
         else (p, []))"

text \<open>\<open>sep.join(parts)\<close> for a list of strings.\<close>

fun str_join :: "pystr \<Rightarrow> pystr list \<Rightarrow> pystr" where
  "str_join sep [] = []"
| "str_join sep [x] = x"
| "str_join sep (x # y # ys) = x @ sep @ str_join sep (y # ys)"

section \<open>Exceptions, the log, and the world of the extractors\<close>

datatype exn = Exn string

datatype level = DEBUG | INFO | WARNING | ERROR

datatype log_arg = ArgStr pystr | ArgExn exn | ArgNat nat

text \<open>A call of the logger: level, format string, arguments.\<close>

datatype log_entry = Log level string "log_arg list"

fun level_of :: "log_entry \<Rightarrow> level" where
  "level_of (Log l m args) = l"

text \<open>
  What \<open>json.load\<close> returns. An object is the parsed \<open>dict\<close>, its keys in insertion
  order; a key occurs once.
\<close>

datatype json =
    JNull
  | JBool bool
  | JInt int
  | JFloat pystr
  | JStr pystr
  | JArr "json list"
  | JObj "(pystr \<times> json) list"

text \<open>
  A cell value read by openpyxl with \<open>values_only=True\<close>: \<open>None\<close>, a string, or another
  value (number, boolean, date), carried as the text \<open>str(x)\<close> gives for it.
\<close>

datatype cell = CellNone | CellStr pystr | CellOther pystr

type_synonym row = "cell list"

text \<open>A workbook: its sheets in workbook order, each with its name and its rows.\<close>

type_synonym workbook = "(pystr \<times> row list) list"

text \<open>
  The environment of one run. The five flags say whether the optional module was
  imported (the name is bound to the module) or the import failed (bound to \<open>None\<close>).
  The functions are what the filesystem and the parsing libraries answer for a path:
  an exception (\<open>Inl\<close>) or the parsed content.
  \<^item> \<open>fitz_open\<close>: the pages of the document as the loop meets them, each the outcome of
    fetching the next page and calling \<open>get_text()\<close> on it;
  \<^item> \<open>PyPDF2_PdfReader\<close>: the same for \<open>extract_text()\<close>, which may return \<open>None\<close>;
  \<^item> \<open>openpyxl_load_workbook\<close>: an exception while the rows are read lazily counts as a
    failed read.
\<close>

record env =
  udb :: unicode_db
  docx :: bool
  fitz :: bool
  PyPDF2 :: bool
  openpyxl :: bool
  odf :: bool
  open_read_utf8 :: "pystr \<Rightarrow> exn + pystr"
  docx_Document :: "pystr \<Rightarrow> exn + pystr list"
  fitz_open :: "pystr \<Rightarrow> exn + (exn + pystr) list"
  PyPDF2_PdfReader :: "pystr \<Rightarrow> exn + (exn + pystr option) list"
  odf_load :: "pystr \<Rightarrow> exn + pystr list"
  openpyxl_load_workbook :: "pystr \<Rightarrow> exn + workbook"
  json_load :: "pystr \<Rightarrow> exn + json"

section \<open>The extractors\<close>

text \<open>
  Every reader returns the text and the logger calls it made. The readers are
  textually the same in \<^verbatim>\<open>files_2_text.py\<close>, \<^verbatim>\<open>files_2_zip.py\<close> and
  \<^verbatim>\<open>raw_text_2_utf8.py\<close>.
\<close>

definition read_plaintext :: "env \<Rightarrow> pystr \<Rightarrow> pystr \<times> log_entry list" where
  "read_plaintext env filepath =
     (case open_read_utf8 env filepath of
        Inr content \<Rightarrow> (content, [])
      | Inl e \<Rightarrow> ([], [Log ERROR ''Error reading plaintext file %s: %s'' [ArgStr filepath, ArgExn e]]))"

definition read_docx :: "env \<Rightarrow> pystr \<Rightarrow> pystr \<times> log_entry list" where
  "read_docx env filepath =
     (case docx_Document env filepath of
        Inr paragraphs \<Rightarrow> (str_join [10] paragraphs, [])
      | Inl e \<Rightarrow> ([], [Log ERROR ''Error reading DOCX %s: %s'' [ArgStr filepath, ArgExn e]]))"

text \<open>
  \<^verbatim>\<open>
  def _read_pdf_pymupdf(filepath):
      text_pages = []
      try:
          with fitz.open(filepath) as pdf_doc:
              for page in pdf_doc:
                  text_pages.append(page.get_text())
      except Exception as e:
          logger.error("Error reading PDF (PyMuPDF) %s: %s", filepath, e)
      return "\n".join(text_pages)
  \<close>
  The loop stops at the first exception; \<open>text_pages\<close> keeps what was appended.
\<close>

fun pymupdf_loop :: "pystr list \<Rightarrow> (exn + pystr) list \<Rightarrow> pystr list \<times> exn option" where
  "pymupdf_loop text_pages [] = (text_pages, None)"
| "pymupdf_loop text_pages (Inr t # pages) = pymupdf_loop (text_pages @ [t]) pages"
| "pymupdf_loop text_pages (Inl e # pages) = (text_pages, Some e)"

definition read_pdf_pymupdf :: "env \<Rightarrow> pystr \<Rightarrow> pystr \<times> log_entry list" where
  "read_pdf_pymupdf env filepath =
     (case (case fitz_open env filepath of
              Inl e \<Rightarrow> ([], Some e)
            | Inr pages \<Rightarrow> pymupdf_loop [] pages) of
        (text_pages, raised) \<Rightarrow>
          (str_join [10] text_pages,
           (case raised of
              None \<Rightarrow> []
            | Some e \<Rightarrow> [Log ERROR ''Error reading PDF (PyMuPDF) %s: %s'' [ArgStr filepath, ArgExn e]])))"

text \<open>\<open>pdf.pages[page_num].extract_text() or ""\<close>: \<open>None\<close> and the empty string give \<open>""\<close>.\<close>

fun or_empty :: "pystr option \<Rightarrow> pystr" where
  "or_empty None = []"
| "or_empty (Some t) = (if t = [] then [] else t)"

fun pypdf2_loop :: "pystr list \<Rightarrow> (exn + pystr option) list \<Rightarrow> pystr list \<times> exn option" where
  "pypdf2_loop text_pages [] = (text_pages, None)"
| "pypdf2_loop text_pages (Inr t # pages) = pypdf2_loop (text_pages @ [or_empty t]) pages"
| "pypdf2_loop text_pages (Inl e # pages) = (text_pages, Some e)"

definition read_pdf_pypdf2 :: "env \<Rightarrow> pystr \<Rightarrow> pystr \<times> log_entry list" where
  "read_pdf_pypdf2 env filepath =
     (case (case PyPDF2_PdfReader env filepath of
              Inl e \<Rightarrow> ([], Some e)
            | Inr pages \<Rightarrow> pypdf2_loop [] pages) of
        (text_pages, raised) \<Rightarrow>
          (str_join [10] text_pages,
           (case raised of
              None \<Rightarrow> []
            | Some e \<Rightarrow> [Log ERROR ''Error reading PDF (PyPDF2) %s: %s'' [ArgStr filepath, ArgExn e]])))"

definition read_odt :: "env \<Rightarrow> pystr \<Rightarrow> pystr \<times> log_entry list" where
  "read_odt env filepath =
     (case odf_load env filepath of
        Inr paragraphs \<Rightarrow> (str_join [10] paragraphs, [])
      | Inl e \<Rightarrow> ([], [Log ERROR ''Error reading ODT %s: %s'' [ArgStr filepath, ArgExn e]]))"

text \<open>
  \<^verbatim>\<open>
  wb = openpyxl.load_workbook(filepath, read_only=True, data_only=True)
  text_chunks = []
  for name in wb.sheetnames:
      sheet = wb[name]
      for row in sheet.iter_rows(values_only=True):
          row_str = "\t".join(str(x) if x is not None else "" for x in row)
          text_chunks.append(row_str)
  return "\n".join(text_chunks)
  \<close>
\<close>

fun cell_str :: "cell \<Rightarrow> pystr" where
  "cell_str CellNone = []"
| "cell_str (CellStr s) = s"
| "cell_str (CellOther s) = s"

fun rows_loop :: "pystr list \<Rightarrow> row list \<Rightarrow> pystr list" where
  "rows_loop text_chunks [] = text_chunks"
| "rows_loop text_chunks (row # rows) =
     rows_loop (text_chunks @ [str_join [9] (map cell_str row)]) rows"

fun sheets_loop :: "workbook \<Rightarrow> pystr list \<Rightarrow> pystr list \<Rightarrow> exn + pystr list" where
  "sheets_loop wb text_chunks [] = Inr text_chunks"
| "sheets_loop wb text_chunks (name # names) =
     (case map_of wb name of
        None \<Rightarrow> Inl (Exn ''KeyError'')
      | Some sheet \<Rightarrow> sheets_loop wb (rows_loop text_chunks sheet) names)"

definition read_excel :: "env \<Rightarrow> pystr \<Rightarrow> pystr \<times> log_entry list" where
  "read_excel env filepath =
     (case (case openpyxl_load_workbook env filepath of
              Inl e \<Rightarrow> Inl e
            | Inr wb \<Rightarrow> sheets_loop wb [] (map fst wb)) of
        Inr text_chunks \<Rightarrow> (str_join [10] text_chunks, [])
      | Inl e \<Rightarrow> ([], [Log ERROR ''Error reading Excel file %s: %s'' [ArgStr filepath, ArgExn e]]))"

text \<open>
  \<^verbatim>\<open>
  with open(filepath, "r", encoding="utf-8") as f:
      data = json.load(f)
  text_cells = []
  for cell in data.get("cells", []):
      src = cell.get("source", [])
      text_cells.append("".join(src))
  return "\n".join(text_cells)
  \<close>
  The operations on the parsed value are Python's: \<open>.get\<close> exists on a \<open>dict\<close> only
  (AttributeError otherwise); iteration runs over the elements of a list, the characters
  of a string and the keys of a \<open>dict\<close>, and raises TypeError on anything else;
  \<open>"".join\<close> wants an iterable of strings.
\<close>

fun dict_get :: "json \<Rightarrow> pystr \<Rightarrow> json \<Rightarrow> exn + json" where
  "dict_get (JObj kvs) key dflt = Inr (case map_of kvs key of Some v \<Rightarrow> v | None \<Rightarrow> dflt)"
| "dict_get v key dflt = Inl (Exn ''AttributeError'')"

fun py_iter :: "json \<Rightarrow> exn + json list" where
  "py_iter (JArr xs) = Inr xs"
| "py_iter (JStr s) = Inr (map (\<lambda>c. JStr [c]) s)"
| "py_iter (JObj kvs) = Inr (map (\<lambda>kv. JStr (fst kv)) kvs)"
| "py_iter v = Inl (Exn ''TypeError'')"

fun join_items :: "pystr \<Rightarrow> json list \<Rightarrow> exn + pystr" where
  "join_items acc [] = Inr acc"
| "join_items acc (JStr s # items) = join_items (acc @ s) items"
| "join_items acc (v # items) = Inl (Exn ''TypeError'')"

definition empty_join :: "json \<Rightarrow> exn + pystr" where
  "empty_join src = (case py_iter src of Inl e \<Rightarrow> Inl e | Inr items \<Rightarrow> join_items [] items)"

fun cells_loop :: "pystr list \<Rightarrow> json list \<Rightarrow> exn + pystr list" where
  "cells_loop text_cells [] = Inr text_cells"
| "cells_loop text_cells (cell # cells) =
     (case dict_get cell (u ''source'') (JArr []) of
        Inl e \<Rightarrow> Inl e
      | Inr src \<Rightarrow>
          (case empty_join src of
             Inl e \<Rightarrow> Inl e
           | Inr cell_text \<Rightarrow> cells_loop (text_cells @ [cell_text]) cells))"

definition ipynb_text :: "json \<Rightarrow> exn + pystr" where
  "ipynb_text data =
     (case dict_get data (u ''cells'') (JArr []) of
        Inl e \<Rightarrow> Inl e
      | Inr cells \<Rightarrow>
          (case py_iter cells of
             Inl e \<Rightarrow> Inl e
           | Inr cs \<Rightarrow>
               (case cells_loop [] cs of
                  Inl e \<Rightarrow> Inl e
                | Inr text_cells \<Rightarrow> Inr (str_join [10] text_cells))))"

definition read_ipynb :: "env \<Rightarrow> pystr \<Rightarrow> pystr \<times> log_entry list" where
  "read_ipynb env filepath =
     (case (case json_load env filepath of
              Inl e \<Rightarrow> Inl e
            | Inr data \<Rightarrow> ipynb_text data) of
        Inr t \<Rightarrow> (t, [])
      | Inl e \<Rightarrow> ([], [Log ERROR ''Error reading IPYNB %s: %s'' [ArgStr filepath, ArgExn e]]))"

section \<open>The dispatcher, once per script\<close>

text \<open>\<open>extract_text_from_file\<close> of \<^verbatim>\<open>files_2_text.py\<close>.\<close>

definition extract_text_from_file :: "env \<Rightarrow> pystr \<Rightarrow> pystr \<times> log_entry list" where
  "extract_text_from_file env filepath =
     (let ext = str_lower (udb env) (snd (splitext filepath)) in
      if ext \<in> set (map u
           [''.txt'', ''.md'', ''.py'', ''.json'', ''.csv'', ''.tsv'', ''.log'',
            ''.xml'', ''.yaml'', ''.yml'', ''.html'', ''.htm'', ''.css'',
            ''.js'', ''.jsx'', ''.ts'', ''.tsx'', ''.sh'', ''.cmd'', ''.ps1'',
            ''.swift'', ''.kt'', ''.go'', ''.rs'', ''.lua'', ''.pl'', ''.r'',
            ''.m'', ''.vb'', ''.cs'', ''.asm'', ''.dart'', ''.php'', ''.rb'',
            ''.sql''])
      then read_plaintext env filepath
      else if ext = u ''.docx''
      then (if docx env then read_docx env filepath else ([], []))
      else if ext \<in> set (map u [''.doc'', ''.rtf''])
      then ([], [Log WARNING ''Native reading not implemented for %s; consider external tools.''
                   [ArgStr ext]])
      else if ext = u ''.pdf''
      then (if fitz env then read_pdf_pymupdf env filepath
            else if PyPDF2 env then read_pdf_pypdf2 env filepath
            else ([], [Log WARNING ''No PDF library installed; cannot parse PDFs.'' []]))
      else if ext = u ''.odt''
      then (if odf env then read_odt env filepath else ([], []))
      else if ext \<in> set (map u [''.xlsx'', ''.xls'', ''.xlsm'', ''.ods''])
      then (if openpyxl env then read_excel env filepath else ([], []))
      else if ext \<in> set (map u [''.ppt'', ''.pptx'', ''.odp''])
      then ([], [Log WARNING ''Parsing for PPT/ODP not implemented in this script.'' []])
      else if ext = u ''.ipynb''
      then read_ipynb env filepath
      else ([], []))"

text \<open>\<open>extract_text_from_file\<close> of \<^verbatim>\<open>files_2_zip.py\<close>.\<close>

definition extract_text_from_file_zip :: "env \<Rightarrow> pystr \<Rightarrow> pystr \<times> log_entry list" where
  "extract_text_from_file_zip env filepath =
     (let ext = str_lower (udb env) (snd (splitext filepath)) in
      if ext \<in> set (map u
           [''.txt'', ''.md'', ''.py'', ''.json'', ''.csv'', ''.tsv'', ''.log'',
            ''.xml'', ''.yaml'', ''.yml'', ''.html'', ''.htm'', ''.css'',
            ''.js'', ''.jsx'', ''.ts'', ''.tsx'', ''.sh'', ''.cmd'', ''.ps1'',
            ''.swift'', ''.kt'', ''.go'', ''.rs'', ''.lua'', ''.pl'', ''.r'',
            ''.m'', ''.vb'', ''.cs'', ''.asm'', ''.dart'', ''.php'', ''.rb'',
            ''.sql''])
      then read_plaintext env filepath
      else if ext = u ''.docx''
      then (if docx env then read_docx env filepath else ([], []))
      else if ext \<in> set (map u [''.doc'', ''.rtf''])
      then ([], [Log WARNING ''Native reading not implemented for %s; consider external tools.''
                   [ArgStr ext]])
      else if ext = u ''.pdf''
      then (if fitz env then read_pdf_pymupdf env filepath
            else if PyPDF2 env then read_pdf_pypdf2 env filepath
            else ([], [Log WARNING ''No PDF library installed; cannot parse PDFs.'' []]))
      else if ext = u ''.odt''
      then (if odf env then read_odt env filepath else ([], []))
      else if ext \<in> set (map u [''.xlsx'', ''.xls'', ''.xlsm'', ''.ods''])
      then (if openpyxl env then read_excel env filepath else ([], []))
      else if ext \<in> set (map u [''.ppt'', ''.pptx'', ''.odp''])
      then ([], [Log WARNING ''Parsing for PPT/ODP not implemented.'' []])
      else if ext = u ''.ipynb''
      then read_ipynb env filepath
      else ([], []))"

text \<open>\<open>extract_text_from_file\<close> of \<^verbatim>\<open>raw_text_2_utf8.py\<close>.\<close>

definition extract_text_from_file_utf8 :: "env \<Rightarrow> pystr \<Rightarrow> pystr \<times> log_entry list" where
  "extract_text_from_file_utf8 env filepath =
     (let ext = str_lower (udb env) (snd (splitext filepath)) in
      if ext \<in> set (map u
           [''.txt'', ''.md'', ''.py'', ''.json'', ''.csv'', ''.tsv'', ''.log'',
            ''.xml'', ''.yaml'', ''.yml'', ''.html'', ''.htm'', ''.css'',
            ''.js'', ''.jsx'', ''.ts'', ''.tsx'', ''.sh'', ''.cmd'', ''.ps1'',
            ''.swift'', ''.kt'', ''.go'', ''.rs'', ''.lua'', ''.pl'', ''.r'',
            ''.m'', ''.vb'', ''.cs'', ''.asm'', ''.dart'', ''.php'', ''.rb'',
            ''.sql''])
      then read_plaintext env filepath
      else if ext = u ''.docx''
      then (if docx env then read_docx env filepath else ([], []))
      else if ext \<in> set (map u [''.doc'', ''.rtf''])
      then ([], [Log WARNING ''Native reading not implemented for %s; consider external tools.''
                   [ArgStr ext]])
      else if ext = u ''.pdf''
      then (if fitz env then read_pdf_pymupdf env filepath
            else if PyPDF2 env then read_pdf_pypdf2 env filepath
            else ([], [Log WARNING ''No PDF library installed; cannot parse PDFs.'' []]))
      else if ext = u ''.odt''
      then (if odf env then read_odt env filepath else ([], []))
      else if ext \<in> set (map u [''.xlsx'', ''.xls'', ''.xlsm'', ''.ods''])
      then (if openpyxl env then read_excel env filepath else ([], []))
      else if ext \<in> set (map u [''.ppt'', ''.pptx'', ''.odp''])
      then ([], [Log WARNING ''Parsing for PPT/ODP not implemented in this script.'' []])
      else if ext = u ''.ipynb''
      then read_ipynb env filepath
      else ([], []))"

section \<open>More of \<open>posixpath\<close>: joining, normalising, relative paths\<close>

definition startswith :: "pystr \<Rightarrow> pystr \<Rightarrow> bool" where
  "startswith s prefix \<longleftrightarrow> take (length prefix) s = prefix"

definition endswith :: "pystr \<Rightarrow> pystr \<Rightarrow> bool" where
  "endswith s suffix \<longleftrightarrow> length suffix \<le> length s \<and> drop (length s - length suffix) s = suffix"

text \<open>
  \<^verbatim>\<open>
  def join(a, *p):
      path = a
      for b in p:
          if b.startswith(sep):
              path = b
          elif not path or path.endswith(sep):
              path += b
          else:
              path += sep + b
      return path
  \<close>
\<close>

fun os_path_join :: "pystr \<Rightarrow> pystr list \<Rightarrow> pystr" where
  "os_path_join path [] = path"
| "os_path_join path (b # p) =
     os_path_join (if startswith b [47] then b
                   else if path = [] \<or> endswith path [47] then path @ b
                   else path @ [47] @ b) p"

text \<open>\<open>s.split(sep)\<close> for a one-character separator.\<close>

fun split_from :: "codepoint \<Rightarrow> pystr \<Rightarrow> pystr \<Rightarrow> pystr list" where
  "split_from sep cur [] = [cur]"
| "split_from sep cur (c # cs) =
     (if c = sep then cur # split_from sep [] cs else split_from sep (cur @ [c]) cs)"

definition str_split :: "pystr \<Rightarrow> codepoint \<Rightarrow> pystr list" where
  "str_split s sep = split_from sep [] s"

text \<open>
  \<^verbatim>\<open>
  def normpath(path):
      if path == empty:
          return dot
      initial_slashes = path.startswith(sep)
      if (initial_slashes and
          path.startswith(sep*2) and not path.startswith(sep*3)):
          initial_slashes = 2
      comps = path.split(sep)
      new_comps = []
      for comp in comps:
          if comp in (empty, dot):
              continue
          if (comp != dotdot or (not initial_slashes and not new_comps) or
               (new_comps and new_comps[-1] == dotdot)):
              new_comps.append(comp)
          elif new_comps:
              new_comps.pop()
      comps = new_comps
      path = sep.join(comps)
      if initial_slashes:
          path = sep*initial_slashes + path
      return path or dot
  \<close>
\<close>

fun normpath_loop :: "nat \<Rightarrow> pystr list \<Rightarrow> pystr list \<Rightarrow> pystr list" where
  "normpath_loop initial_slashes new_comps [] = new_comps"
| "normpath_loop initial_slashes new_comps (component # comps) =
     (if component \<in> set [[], [46]] then normpath_loop initial_slashes new_comps comps
      else if component \<noteq> [46, 46] \<or> (initial_slashes = 0 \<and> new_comps = []) \<or>
              (new_comps \<noteq> [] \<and> last new_comps = [46, 46])
      then normpath_loop initial_slashes (new_comps @ [component]) comps
      else if new_comps \<noteq> [] then normpath_loop initial_slashes (butlast new_comps) comps
      else normpath_loop initial_slashes new_comps comps)"

definition normpath :: "pystr \<Rightarrow> pystr" where
  "normpath path =
     (if path = [] then [46]
      else
        let initial_slashes =
              (if startswith path [47]
               then (if startswith path [47, 47] \<and> \<not> startswith path [47, 47, 47] then 2 else 1)
               else 0);
            comps = normpath_loop initial_slashes [] (str_split path 47);
            path1 = str_join [47] comps;
            path2 = (if initial_slashes \<noteq> 0 then replicate initial_slashes 47 @ path1 else path1)
        in if path2 = [] then [46] else path2)"

text \<open>\<open>os.path.abspath\<close>, with the working directory \<open>os.getcwd()\<close> as a parameter.\<close>

definition abspath :: "pystr \<Rightarrow> pystr \<Rightarrow> pystr" where
  "abspath cwd path =
     (if \<not> startswith path [47] then normpath (os_path_join cwd [path]) else normpath path)"

text \<open>
  \<open>os.path.commonprefix\<close> of two lists: the elements up to the first position where they
  differ (the library compares the smaller with the larger of the two lists).
\<close>

fun commonprefix :: "pystr list \<Rightarrow> pystr list \<Rightarrow> pystr list" where
  "commonprefix (x # xs) (y # ys) = (if x = y then x # commonprefix xs ys else [])"
| "commonprefix xs ys = []"

text \<open>
  \<^verbatim>\<open>
  def relpath(path, start=None):
      if not path:
          raise ValueError("no path specified")
      ...
      start_list = [x for x in abspath(start).split(sep) if x]
      path_list = [x for x in abspath(path).split(sep) if x]
      i = len(commonprefix([start_list, path_list]))
      rel_list = [pardir] * (len(start_list)-i) + path_list[i:]
      if not rel_list:
          return curdir
      return join(*rel_list)
  \<close>
\<close>

definition relpath :: "pystr \<Rightarrow> pystr \<Rightarrow> pystr \<Rightarrow> exn + pystr" where
  "relpath cwd path start =
     (if path = [] then Inl (Exn ''ValueError'')
      else
        let start_list = filter (\<lambda>x. x \<noteq> []) (str_split (abspath cwd start) 47);
            path_list = filter (\<lambda>x. x \<noteq> []) (str_split (abspath cwd path) 47);
            i = length (commonprefix start_list path_list);
            rel_list = replicate (length start_list - i) [46, 46] @ drop i path_list
        in (case rel_list of
              [] \<Rightarrow> Inr [46]
            | a # p \<Rightarrow> Inr (os_path_join a p)))"

text \<open>
  \<^verbatim>\<open>
  def dirname(p):
      i = p.rfind(sep) + 1
      head = p[:i]
      if head and head != sep*len(head):
          head = head.rstrip(sep)
      return head
  \<close>
\<close>

definition dirname :: "pystr \<Rightarrow> pystr" where
  "dirname p =
     (let i = nat (rfind p 47 + 1);
          head = take i p
      in if head \<noteq> [] \<and> head \<noteq> replicate (length head) 47
         then rev (dropWhile (\<lambda>c. c = 47) (rev head))
         else head)"

section \<open>The orchestrator\<close>

text \<open>
  What the operating system answers during a run: the working directory, whether a path
  exists, the size of a file (or an exception), whether \<open>os.makedirs(_, exist_ok=True)\<close> raises for a
  directory, and what happens when a text is written to a path: it is written, or
  \<open>open\<close> raises, or \<open>write\<close> raises after \<open>open\<close> has created or truncated the file,
  which then holds some part of the text.
\<close>

datatype write_outcome = Written | OpenRaises exn | WriteRaises exn pystr

record filesystem =
  cwd :: pystr
  path_exists :: "pystr \<Rightarrow> bool"
  getsize :: "pystr \<Rightarrow> exn + nat"
  makedirs_raises :: "pystr \<Rightarrow> exn option"
  open_write :: "pystr \<Rightarrow> pystr \<Rightarrow> write_outcome"

text \<open>
  The effects of a run: the files written (path to content), the directories asked of
  \<open>os.makedirs\<close>, and the calls of the logger.
\<close>

record world =
  files :: "pystr \<Rightarrow> pystr option"
  made_dirs :: "pystr list"
  logged :: "log_entry list"

definition log_call :: "log_entry \<Rightarrow> world \<Rightarrow> world" where
  "log_call entry w = w \<lparr> logged := logged w @ [entry] \<rparr>"

text \<open>
  \<^verbatim>\<open>
  try:
      with open(out_path, "w", encoding="utf-8") as out_f:
          out_f.write(text)
      logger.info("Wrote text to %s", out_path)
  except Exception as e:
      logger.error("Error writing to %s: %s", out_path, e)
  \<close>
\<close>

definition write_text :: "filesystem \<Rightarrow> pystr \<Rightarrow> pystr \<Rightarrow> world \<Rightarrow> world" where
  "write_text fs out_path content w =
     (case open_write fs out_path content of
        Written \<Rightarrow>
          log_call (Log INFO ''Wrote text to %s'' [ArgStr out_path])
            (w \<lparr> files := (files w)(out_path \<mapsto> content) \<rparr>)
      | OpenRaises e \<Rightarrow>
          log_call (Log ERROR ''Error writing to %s: %s'' [ArgStr out_path, ArgExn e]) w
      | WriteRaises e partial \<Rightarrow>
          log_call (Log ERROR ''Error writing to %s: %s'' [ArgStr out_path, ArgExn e])
            (w \<lparr> files := (files w)(out_path \<mapsto> partial) \<rparr>))"

text \<open>
  \<^verbatim>\<open>
  rel_path = os.path.relpath(full_path, input_dir)
  base_name = os.path.splitext(rel_path)[0]  # drop extension
  txt_rel_path = f"{base_name}.txt"
  out_path = os.path.join(output_dir, txt_rel_path)
  \<close>
\<close>

definition out_path_of :: "filesystem \<Rightarrow> pystr \<Rightarrow> pystr \<Rightarrow> pystr \<Rightarrow> exn + pystr" where
  "out_path_of fs input_dir output_dir full_path =
     (case relpath (cwd fs) full_path input_dir of
        Inl e \<Rightarrow> Inl e
      | Inr rel_path \<Rightarrow>
          (let base_name = fst (splitext rel_path);
               txt_rel_path = base_name @ u ''.txt''
           in Inr (os_path_join output_dir [txt_rel_path])))"

definition allowed_extensions :: "pystr list" where
  "allowed_extensions = map u
      [''.txt'', ''.md'', ''.py'', ''.json'', ''.csv'', ''.tsv'', ''.log'',
       ''.xml'', ''.yaml'', ''.yml'', ''.html'', ''.htm'', ''.css'',
       ''.js'', ''.jsx'', ''.ts'', ''.tsx'', ''.sh'', ''.cmd'', ''.ps1'',
       ''.swift'', ''.kt'', ''.go'', ''.rs'', ''.lua'', ''.pl'', ''.r'',
       ''.m'', ''.vb'', ''.cs'', ''.asm'', ''.dart'', ''.php'', ''.rb'',
       ''.sql'', ''.doc'', ''.docx'', ''.rtf'', ''.pdf'', ''.odt'',
       ''.xls'', ''.xlsx'', ''.xlsm'', ''.ods'', ''.ppt'', ''.pptx'',
       ''.odp'', ''.ipynb'']"

text \<open>The arguments of \<open>convert_files_to_txt\<close>.\<close>

record config =
  input_dir :: pystr
  output_dir :: pystr
  max_file_size :: nat
  skip_hidden :: bool

text \<open>
  The result of a step: the world after it, or the exception that leaves
  \<open>convert_files_to_txt\<close> together with the world at that moment.
\<close>

type_synonym outcome = "(exn \<times> world) + world"

fun world_of :: "outcome \<Rightarrow> world" where
  "world_of (Inl (e, w)) = w"
| "world_of (Inr w) = w"

text \<open>
  The body of the loop \<open>for file_name in files\<close> up to the extraction, shared word for word
  by the three scripts: the filters (hidden file, extension, size), the output path and
  \<open>os.makedirs\<close>, which is outside every \<open>try\<close>. The rest of the body is the
  continuation \<open>rest\<close>, given the full path and the output path.
\<close>

definition visit_file ::
  "env \<Rightarrow> filesystem \<Rightarrow> config \<Rightarrow> (pystr \<Rightarrow> pystr \<Rightarrow> world \<Rightarrow> world) \<Rightarrow>
   pystr \<Rightarrow> pystr \<Rightarrow> world \<Rightarrow> outcome" where
  "visit_file env fs cfg rest root file_name w =
     (if skip_hidden cfg \<and> startswith file_name [46] then Inr w
      else
        let ext = str_lower (udb env) (snd (splitext file_name)) in
        if ext \<notin> set allowed_extensions then Inr w
        else
          let full_path = os_path_join root [file_name] in
          (case getsize fs full_path of
             Inl e \<Rightarrow>
               Inr (log_call (Log ERROR ''Could not check file size of %s: %s''
                                [ArgStr full_path, ArgExn e]) w)
           | Inr sz \<Rightarrow>
               if sz > max_file_size cfg
               then Inr (log_call (Log DEBUG ''Skipping large file %s (size %d bytes)''
                                     [ArgStr full_path, ArgNat sz]) w)
               else
                 (case out_path_of fs (input_dir cfg) (output_dir cfg) full_path of
                    Inl e \<Rightarrow> Inl (e, w)
                  | Inr out_path \<Rightarrow>
                      (case makedirs_raises fs (dirname out_path) of
                         Some e \<Rightarrow> Inl (e, w)
                       | None \<Rightarrow>
                           Inr (rest full_path out_path
                                  (w \<lparr> made_dirs := made_dirs w @ [dirname out_path] \<rparr>))))))"

text \<open>
  \<^verbatim>\<open>files_2_zip.py\<close> and \<^verbatim>\<open>raw_text_2_utf8.py\<close>:
  \<^verbatim>\<open>
  raw_text = extract_text_from_file(full_path)
  sanitized_text = sanitize_text(raw_text)
  if not sanitized_text:
      logger.debug("No text extracted (or only control chars) from %s", full_path)
      continue
  # write sanitized_text
  \<close>
  The two scripts differ in the dispatcher they call, their own.
\<close>

definition extract_sanitize_write ::
  "(env \<Rightarrow> pystr \<Rightarrow> pystr \<times> log_entry list) \<Rightarrow> env \<Rightarrow> filesystem \<Rightarrow>
   pystr \<Rightarrow> pystr \<Rightarrow> world \<Rightarrow> world" where
  "extract_sanitize_write extract env fs full_path out_path w =
     (let (raw_text, calls) = extract env full_path;
          w1 = w \<lparr> logged := logged w @ calls \<rparr>;
          sanitized_text = sanitize_text (udb env) raw_text
      in if sanitized_text = []
         then log_call (Log DEBUG ''No text extracted (or only control chars) from %s''
                          [ArgStr full_path]) w1
         else write_text fs out_path sanitized_text w1)"

text \<open>
  \<^verbatim>\<open>files_2_text.py\<close>:
  \<^verbatim>\<open>
  text = extract_text_from_file(full_path)
  if not text.strip():
      logger.debug("No text extracted from %s", full_path)
      continue
  # write text
  \<close>
\<close>

definition extract_write :: "env \<Rightarrow> filesystem \<Rightarrow> pystr \<Rightarrow> pystr \<Rightarrow> world \<Rightarrow> world" where
  "extract_write env fs full_path out_path w =
     (let (txt, calls) = extract_text_from_file env full_path;
          w1 = w \<lparr> logged := logged w @ calls \<rparr>
      in if str_strip (udb env) txt = []
         then log_call (Log DEBUG ''No text extracted from %s'' [ArgStr full_path]) w1
         else write_text fs out_path txt w1)"

definition convert_file_text ::
  "env \<Rightarrow> filesystem \<Rightarrow> config \<Rightarrow> pystr \<Rightarrow> pystr \<Rightarrow> world \<Rightarrow> outcome" where
  "convert_file_text env fs cfg = visit_file env fs cfg (extract_write env fs)"

definition convert_file_zip ::
  "env \<Rightarrow> filesystem \<Rightarrow> config \<Rightarrow> pystr \<Rightarrow> pystr \<Rightarrow> world \<Rightarrow> outcome" where
  "convert_file_zip env fs cfg =
     visit_file env fs cfg (extract_sanitize_write extract_text_from_file_zip env fs)"

definition convert_file_utf8 ::
  "env \<Rightarrow> filesystem \<Rightarrow> config \<Rightarrow> pystr \<Rightarrow> pystr \<Rightarrow> world \<Rightarrow> outcome" where
  "convert_file_utf8 env fs cfg =
     visit_file env fs cfg (extract_sanitize_write extract_text_from_file_utf8 env fs)"

text \<open>
  The loop \<open>for file_name in files\<close>, for a step function: an exception ends it.
\<close>

fun files_loop :: "(pystr \<Rightarrow> world \<Rightarrow> outcome) \<Rightarrow> pystr list \<Rightarrow> world \<Rightarrow> outcome" where
  "files_loop step [] w = Inr w"
| "files_loop step (file_name # file_names) w =
     (case step file_name w of
        Inl raised \<Rightarrow> Inl raised
      | Inr w1 \<Rightarrow> files_loop step file_names w1)"

text \<open>
  A directory as \<open>os.walk\<close> lists it: the names of its files and its subdirectories.
  \<open>os.walk(input_dir)\<close> yields a directory before its subdirectories, with
  \<open>os.path.join(root, d)\<close> as the root of subdirectory \<open>d\<close>; the loop body removes the
  hidden directories from \<open>dirs\<close> before the walk descends:
  \<^verbatim>\<open>
  for root, dirs, files in os.walk(input_dir):
      if skip_hidden:
          dirs[:] = [d for d in dirs if not d.startswith(".")]
      for file_name in files:
          ...
  \<close>
\<close>

datatype tree = Dir "pystr list" "(pystr \<times> tree) list"

fun walk :: "(pystr \<Rightarrow> pystr \<Rightarrow> world \<Rightarrow> outcome) \<Rightarrow> bool \<Rightarrow> pystr \<Rightarrow> tree \<Rightarrow> world \<Rightarrow> outcome"
  and walk_dirs ::
    "(pystr \<Rightarrow> pystr \<Rightarrow> world \<Rightarrow> outcome) \<Rightarrow> bool \<Rightarrow> pystr \<Rightarrow> (pystr \<times> tree) list \<Rightarrow> world \<Rightarrow> outcome"
  where
  "walk step hide root (Dir file_names dirs) w =
     (case files_loop (step root) file_names w of
        Inl raised \<Rightarrow> Inl raised
      | Inr w1 \<Rightarrow> walk_dirs step hide root dirs w1)"
| "walk_dirs step hide root [] w = Inr w"
| "walk_dirs step hide root ((d, t) # dirs) w =
     (if hide \<and> startswith d [46] then walk_dirs step hide root dirs w
      else (case walk step hide (os_path_join root [d]) t w of
              Inl raised \<Rightarrow> Inl raised
            | Inr w1 \<Rightarrow> walk_dirs step hide root dirs w1))"

text \<open>
  \<open>convert_files_to_txt\<close>, for the step of a script, on the tree under \<open>input_dir\<close>:
  \<^verbatim>\<open>
  if not os.path.exists(output_dir):
      os.makedirs(output_dir, exist_ok=True)
  logger.info("Starting conversion from %s to %s", input_dir, output_dir)
  for root, dirs, files in os.walk(input_dir):
      ...
  logger.info("Conversion complete.")
  \<close>
\<close>

definition ensure_output_dir :: "filesystem \<Rightarrow> config \<Rightarrow> world \<Rightarrow> outcome" where
  "ensure_output_dir fs cfg w =
     (if \<not> path_exists fs (output_dir cfg)
      then (case makedirs_raises fs (output_dir cfg) of
              Some e \<Rightarrow> Inl (e, w)
            | None \<Rightarrow> Inr (w \<lparr> made_dirs := made_dirs w @ [output_dir cfg] \<rparr>))
      else Inr w)"

definition convert_run ::
  "(pystr \<Rightarrow> pystr \<Rightarrow> world \<Rightarrow> outcome) \<Rightarrow> filesystem \<Rightarrow> config \<Rightarrow> tree \<Rightarrow> world \<Rightarrow> outcome" where
  "convert_run step fs cfg t w =
     (case ensure_output_dir fs cfg w of
        Inl raised \<Rightarrow> Inl raised
      | Inr w0 \<Rightarrow>
          (case walk step (skip_hidden cfg) (input_dir cfg) t
                  (log_call (Log INFO ''Starting conversion from %s to %s''
                               [ArgStr (input_dir cfg), ArgStr (output_dir cfg)]) w0) of
             Inl raised \<Rightarrow> Inl raised
           | Inr w1 \<Rightarrow> Inr (log_call (Log INFO ''Conversion complete.'' []) w1)))"

definition convert_files_to_txt :: "env \<Rightarrow> filesystem \<Rightarrow> config \<Rightarrow> tree \<Rightarrow> world \<Rightarrow> outcome" where
  "convert_files_to_txt env fs cfg = convert_run (convert_file_text env fs cfg) fs cfg"

definition convert_files_to_txt_zip :: "env \<Rightarrow> filesystem \<Rightarrow> config \<Rightarrow> tree \<Rightarrow> world \<Rightarrow> outcome" where
  "convert_files_to_txt_zip env fs cfg = convert_run (convert_file_zip env fs cfg) fs cfg"

definition convert_files_to_txt_utf8 :: "env \<Rightarrow> filesystem \<Rightarrow> config \<Rightarrow> tree \<Rightarrow> world \<Rightarrow> outcome" where
  "convert_files_to_txt_utf8 env fs cfg = convert_run (convert_file_utf8 env fs cfg) fs cfg"

section \<open>Notions used in the statements\<close>

abbreviation row_str :: "row \<Rightarrow> pystr" where
  "row_str r \<equiv> str_join [9] (map cell_str r)"

text \<open>
  A cell that is an object whose \<open>"source"\<close> is the list of the string fragments \<open>frags\<close>.
\<close>

definition has_source :: "json \<Rightarrow> pystr list \<Rightarrow> bool" where
  "has_source cell frags \<longleftrightarrow>
     (case cell of JObj kvs \<Rightarrow> map_of kvs (u ''source'') = Some (JArr (map JStr frags)) | _ \<Rightarrow> False)"

text \<open>
  The shape of a parsed notebook on which the reader raises nothing: \<open>"cells"\<close>, when
  present, is a list of objects (or an empty string or object), and \<open>"source"\<close>, when
  present, is a list of strings, a string or an object.
\<close>

fun is_str :: "json \<Rightarrow> bool" where
  "is_str (JStr s) = True"
| "is_str v = False"

definition joinable :: "json \<Rightarrow> bool" where
  "joinable src \<longleftrightarrow>
     (case src of
        JArr items \<Rightarrow> list_all is_str items
      | JStr s \<Rightarrow> True
      | JObj kvs \<Rightarrow> True
      | _ \<Rightarrow> False)"

definition cell_ok :: "json \<Rightarrow> bool" where
  "cell_ok cell \<longleftrightarrow>
     (case cell of
        JObj kvs \<Rightarrow> (case map_of kvs (u ''source'') of None \<Rightarrow> True | Some src \<Rightarrow> joinable src)
      | _ \<Rightarrow> False)"

definition cells_ok :: "json \<Rightarrow> bool" where
  "cells_ok cells \<longleftrightarrow>
     (case cells of
        JArr items \<Rightarrow> list_all cell_ok items
      | JStr s \<Rightarrow> s = []
      | JObj kvs \<Rightarrow> kvs = []
      | _ \<Rightarrow> False)"

definition notebook_ok :: "json \<Rightarrow> bool" where
  "notebook_ok data \<longleftrightarrow>
     (case data of
        JObj kvs \<Rightarrow> (case map_of kvs (u ''cells'') of None \<Rightarrow> True | Some cells \<Rightarrow> cells_ok cells)
      | _ \<Rightarrow> False)"

definition no_source :: "json \<Rightarrow> bool" where
  "no_source cell \<longleftrightarrow> (case cell of JObj kvs \<Rightarrow> map_of kvs (u ''source'') = None | _ \<Rightarrow> False)"

text \<open>
  A name as a directory listing gives it: not empty, without a slash, and neither
  \<open>.\<close> nor \<open>..\<close>.
\<close>

definition entry_name :: "pystr \<Rightarrow> bool" where
  "entry_name d \<longleftrightarrow> d \<noteq> [] \<and> 47 \<notin> set d \<and> d \<noteq> [46] \<and> d \<noteq> [46, 46]"

text \<open>
  The root \<open>os.walk(top_dir)\<close> reports for the directory reached from \<open>top_dir\<close> through the
  subdirectories \<open>ds\<close>: each level is \<open>os.path.join(root, d)\<close>.
\<close>

definition walk_root :: "pystr \<Rightarrow> pystr list \<Rightarrow> pystr" where
  "walk_root top_dir ds = foldl (\<lambda>root d. os_path_join root [d]) top_dir ds"

text \<open>Components as \<open>normpath\<close> keeps them: not empty and without a slash.\<close>

definition good_comps :: "pystr list \<Rightarrow> bool" where
  "good_comps cs \<longleftrightarrow> list_all (\<lambda>c. c \<noteq> [] \<and> 47 \<notin> set c) cs"

text \<open>
  What \<open>abspath\<close> normalises: the path itself when it is absolute, the path joined onto the
  working directory otherwise.
\<close>

definition anchored :: "pystr \<Rightarrow> pystr \<Rightarrow> pystr" where
  "anchored cwd0 path = (if \<not> startswith path [47] then os_path_join cwd0 [path] else path)"

text \<open>
  No file of the world is empty; no write fails after \<open>open\<close> has created the file and
  before anything reached it; a step keeps the first property.
\<close>

definition no_empty_file :: "world \<Rightarrow> bool" where
  "no_empty_file w \<longleftrightarrow> (\<forall>p. files w p \<noteq> Some [])"

definition whole_writes :: "filesystem \<Rightarrow> bool" where
  "whole_writes fs \<longleftrightarrow> (\<forall>p content e. open_write fs p content \<noteq> WriteRaises e [])"

definition step_keeps :: "(pystr \<Rightarrow> pystr \<Rightarrow> world \<Rightarrow> outcome) \<Rightarrow> bool" where
  "step_keeps step \<longleftrightarrow>
     (\<forall>root file_name w0. no_empty_file w0 \<longrightarrow> no_empty_file (world_of (step root file_name w0)))"

section \<open>Concrete environments\<close>

text \<open>The extension the dispatcher looks at: \<open>os.path.splitext(filepath)[1].lower()\<close>.\<close>

abbreviation ext_of :: "env \<Rightarrow> pystr \<Rightarrow> pystr" where
  "ext_of env filepath \<equiv> str_lower (udb env) (snd (splitext filepath))"

text \<open>
  An environment with no optional module and no readable file; the ones below add one
  module and what it reads.
\<close>

definition demo_env :: env where
  "demo_env = \<lparr> udb = ascii_db, docx = False, fitz = False, PyPDF2 = False, openpyxl = False, odf = False,
     open_read_utf8 = (\<lambda>p. Inl (Exn ''FileNotFoundError'')),
     docx_Document = (\<lambda>p. Inl (Exn ''FileNotFoundError'')),
     fitz_open = (\<lambda>p. Inl (Exn ''FileNotFoundError'')),
     PyPDF2_PdfReader = (\<lambda>p. Inl (Exn ''FileNotFoundError'')),
     odf_load = (\<lambda>p. Inl (Exn ''FileNotFoundError'')),
     openpyxl_load_workbook = (\<lambda>p. Inl (Exn ''FileNotFoundError'')),
     json_load = (\<lambda>p. Inl (Exn ''FileNotFoundError'')) \<rparr>"

definition pymupdf_env :: "(exn + pystr) list \<Rightarrow> env" where
  "pymupdf_env pages = demo_env \<lparr> fitz := True, fitz_open := (\<lambda>p. Inr pages) \<rparr>"

definition pypdf2_env :: "(exn + pystr option) list \<Rightarrow> env" where
  "pypdf2_env pages = demo_env \<lparr> PyPDF2 := True, PyPDF2_PdfReader := (\<lambda>p. Inr pages) \<rparr>"

definition excel_env :: "workbook \<Rightarrow> env" where
  "excel_env wb = demo_env \<lparr> openpyxl := True, openpyxl_load_workbook := (\<lambda>p. Inr wb) \<rparr>"

definition ipynb_env :: "json \<Rightarrow> env" where
  "ipynb_env data = demo_env \<lparr> json_load := (\<lambda>p. Inr data) \<rparr>"

definition plaintext_env :: "pystr \<Rightarrow> env" where
  "plaintext_env content = demo_env \<lparr> open_read_utf8 := (\<lambda>p. Inr content) \<rparr>"

text \<open>
  A filesystem where the working directory is \<open>/home/me\<close>, the output directory is
  not there yet, every file has one byte,
  every directory can be made and every write succeeds; a run from \<open>root\<close> to \<open>out/\<close>
  with the default arguments; the world before anything is written.
\<close>

definition demo_fs :: filesystem where
  "demo_fs = \<lparr> cwd = u ''/home/me'', path_exists = (\<lambda>p. False), getsize = (\<lambda>p. Inr 1),
               makedirs_raises = (\<lambda>p. None), open_write = (\<lambda>p content. Written) \<rparr>"

text \<open>
  The same filesystem where \<open>os.makedirs\<close> raises, and where every write fails after
  \<open>open\<close> has created the file, leaving it empty.
\<close>

definition blocked_fs :: filesystem where
  "blocked_fs = demo_fs \<lparr> makedirs_raises := (\<lambda>p. Some (Exn ''PermissionError'')) \<rparr>"

definition truncating_fs :: filesystem where
  "truncating_fs = demo_fs \<lparr> open_write := (\<lambda>p content. WriteRaises (Exn ''OSError'') []) \<rparr>"

definition demo_cfg :: config where
  "demo_cfg = \<lparr> input_dir = u ''root'', output_dir = u ''out/'',
                max_file_size = 5 * 1024 * 1024, skip_hidden = True \<rparr>"

definition empty_world :: world where
  "empty_world = \<lparr> files = Map.empty, made_dirs = [], logged = [] \<rparr>"

text \<open>Two sheets, each with the one row \<open>["a", None, "b"]\<close>.\<close>

definition two_sheets :: workbook where
  "two_sheets = [(u ''Sheet1'', [[CellStr (u ''a''), CellNone, CellStr (u ''b'')]]),
                 (u ''Sheet2'', [[CellStr (u ''a''), CellNone, CellStr (u ''b'')]])]"

text \<open>The cells \<open>[{"source": ["print(1)"]}, {"source": ["x = 2\\n", "y = 3"]}]\<close>.\<close>

definition two_cells :: "json list" where
  "two_cells = [JObj [(u ''source'', JArr [JStr (u ''print(1)'')])],
                JObj [(u ''source'', JArr [JStr (u ''x = 2'' @ [10]), JStr (u ''y = 3'')])]]"

lemmas eval_defs = demo_env_def pymupdf_env_def pypdf2_env_def excel_env_def ipynb_env_def
  ascii_db_def u_def splitext_def rfind_def skip_leading_dots.simps ascii_lower_def

section \<open>Properties of the sanitizer\<close>

lemma clean_loop_map: "clean_loop db acc cs = acc @ map (scrub db) cs"
  by (induction cs arbitrary: acc) (simp_all add: scrub_def kept_def)

lemma sanitize_text_eq:
  "sanitize_text db text = str_strip db (map (scrub db) (normalize_NFC db text))"
  by (simp add: sanitize_text_def clean_loop_map)

lemma kept_scrub: "isprintable db 32 \<Longrightarrow> kept db (scrub db ch)"
  by (simp add: scrub_def kept_def)

lemma scrub_kept: "kept db ch \<Longrightarrow> scrub db ch = ch"
  by (simp add: scrub_def)

lemma set_str_strip: "set (str_strip db s) \<subseteq> set s"
proof -
  have "set (str_strip db s) = set (dropWhile (isspace db) (rev (dropWhile (isspace db) s)))"
    by (simp add: str_strip_def)
  also have "\<dots> \<subseteq> set (rev (dropWhile (isspace db) s))"
    by (rule set_dropWhileD [THEN subsetI])
  also have "\<dots> \<subseteq> set s"
    using set_dropWhileD by fastforce
  finally show ?thesis .
qed

lemma str_strip_sandwich: "\<exists>a c. s = a @ str_strip db s @ c"
proof -
  let ?d = "dropWhile (isspace db) s"
  have 1: "s = takeWhile (isspace db) s @ ?d" by simp
  have "rev ?d = takeWhile (isspace db) (rev ?d) @ dropWhile (isspace db) (rev ?d)" by simp
  then have "?d = rev (dropWhile (isspace db) (rev ?d)) @ rev (takeWhile (isspace db) (rev ?d))"
    by (metis rev_append rev_rev_ident)
  then have "?d = str_strip db s @ rev (takeWhile (isspace db) (rev ?d))"
    by (simp add: str_strip_def)
  with 1 show ?thesis by metis
qed

lemma hd_rev_dropWhile_rev:
  assumes "r = dropWhile P (rev d)" and "r \<noteq> []"
  shows "hd (rev r) = hd d"
proof -
  have "rev d = takeWhile P (rev d) @ r" using assms(1) by simp
  then have "rev (rev d) = rev (takeWhile P (rev d) @ r)" by (rule arg_cong)
  then have "d = rev r @ rev (takeWhile P (rev d))" by (simp only: rev_rev_ident rev_append)
  then have "hd d = hd (rev r @ rev (takeWhile P (rev d)))" by (rule arg_cong)
  moreover have "rev r \<noteq> []" using assms(2) by simp
  ultimately show ?thesis by (simp add: hd_append2)
qed

lemma str_strip_hd: "str_strip db s \<noteq> [] \<Longrightarrow> \<not> isspace db (hd (str_strip db s))"
proof -
  assume ne: "str_strip db s \<noteq> []"
  define d where "d = dropWhile (isspace db) s"
  define r where "r = dropWhile (isspace db) (rev d)"
  have strip: "str_strip db s = rev r" by (simp add: str_strip_def r_def d_def)
  with ne have rne: "r \<noteq> []" by simp
  have dne: "d \<noteq> []"
  proof
    assume "d = []"
    then have "r = []" by (simp add: r_def)
    with rne show False by contradiction
  qed
  have "hd (rev r) = hd d" using r_def rne by (rule hd_rev_dropWhile_rev)
  moreover have "\<not> isspace db (hd d)" using dne unfolding d_def by (rule hd_dropWhile)
  ultimately show ?thesis by (simp add: strip)
qed

lemma str_strip_last: "str_strip db s \<noteq> [] \<Longrightarrow> \<not> isspace db (last (str_strip db s))"
proof -
  assume ne: "str_strip db s \<noteq> []"
  let ?r = "dropWhile (isspace db) (rev (dropWhile (isspace db) s))"
  from ne have rne: "?r \<noteq> []" by (simp add: str_strip_def)
  then have "\<not> isspace db (hd ?r)" by (rule hd_dropWhile)
  moreover have "last (rev ?r) = hd ?r" using rne by (simp add: last_rev)
  ultimately show ?thesis by (simp add: str_strip_def)
qed

lemma str_strip_fixed:
  assumes "s \<noteq> [] \<longrightarrow> \<not> isspace db (hd s) \<and> \<not> isspace db (last s)"
  shows "str_strip db s = s"
proof (cases "s = []")
  case True
  then show ?thesis by (simp add: str_strip_def)
next
  case False
  with assms have h: "\<not> isspace db (hd s)" and l: "\<not> isspace db (last s)" by simp_all
  from False h have 1: "dropWhile (isspace db) s = s"
    by (cases s) simp_all
  from False l have "\<not> isspace db (hd (rev s))" by (simp add: hd_rev)
  with False have 2: "dropWhile (isspace db) (rev s) = rev s"
    by (cases "rev s") simp_all
  show ?thesis by (simp add: str_strip_def 1 2)
qed

lemma str_strip_idem: "str_strip db (str_strip db s) = str_strip db s"
  by (rule str_strip_fixed) (simp add: str_strip_hd str_strip_last)

lemma nfc_form_scrub_prefix:
  assumes facts: "ucd_facts db"
  shows "nfc_form db (pre @ rest) \<Longrightarrow> nfc_form db (pre @ map (scrub db) rest)"
proof (induction rest arbitrary: pre)
  case Nil
  then show ?case by simp
next
  case (Cons ch rest)
  have step: "nfc_form db (pre @ scrub db ch # rest)"
  proof (cases "kept db ch")
    case True
    with Cons.prems show ?thesis by (simp add: scrub_def)
  next
    case False
    then have "\<not> isprintable db ch" by (simp add: kept_def)
    with facts Cons.prems have "nfc_form db (pre @ 32 # rest)"
      unfolding ucd_facts_def by blast
    with False show ?thesis by (simp add: scrub_def)
  qed
  then have "nfc_form db ((pre @ [scrub db ch]) @ rest)" by simp
  then have "nfc_form db ((pre @ [scrub db ch]) @ map (scrub db) rest)"
    by (rule Cons.IH)
  then show ?case by simp
qed

lemma nfc_form_sanitize:
  assumes facts: "ucd_facts db"
  shows "nfc_form db (sanitize_text db x)"
proof -
  let ?m = "map (scrub db) (normalize_NFC db x)"
  from facts have "nfc_form db ([] @ normalize_NFC db x)"
    by (simp add: ucd_facts_def)
  then have "nfc_form db ([] @ ?m)"
    by (rule nfc_form_scrub_prefix [OF facts])
  moreover obtain a c where "?m = a @ str_strip db ?m @ c"
    using str_strip_sandwich by blast
  ultimately have "nfc_form db (a @ str_strip db ?m @ c)" by simp
  with facts have "nfc_form db (str_strip db ?m)"
    unfolding ucd_facts_def by blast
  then show ?thesis by (simp add: sanitize_text_eq)
qed

lemma kept_sanitize:
  assumes "isprintable db 32" and "ch \<in> set (sanitize_text db x)"
  shows "kept db ch"
proof -
  have "set (sanitize_text db x) \<subseteq> set (map (scrub db) (normalize_NFC db x))"
    unfolding sanitize_text_eq by (rule set_str_strip)
  with assms(2) have "ch \<in> set (map (scrub db) (normalize_NFC db x))" by blast
  then obtain c where "ch = scrub db c" by auto
  with assms(1) show ?thesis by (simp add: kept_scrub)
qed

lemma ascii_db_facts: "ucd_facts ascii_db"
  by (simp add: ucd_facts_def nfc_form_def ascii_db_def)

lemma normalize_NFC_empty:
  assumes facts: "ucd_facts db"
  shows "normalize_NFC db [] = []"
proof -
  from facts have "nfc_form db ([] @ [] @ normalize_NFC db [])"
    by (simp add: ucd_facts_def)
  with facts have "nfc_form db []"
    unfolding ucd_facts_def by blast
  then show ?thesis by (simp add: nfc_form_def)
qed

lemma sanitize_text_empty: "ucd_facts db \<Longrightarrow> sanitize_text db [] = []"
  by (simp add: sanitize_text_eq normalize_NFC_empty str_strip_def)

lemma sanitize_text_ends:
  "sanitize_text db x \<noteq> [] \<Longrightarrow>
   \<not> isspace db (hd (sanitize_text db x)) \<and> \<not> isspace db (last (sanitize_text db x))"
  unfolding sanitize_text_eq by (simp add: str_strip_hd str_strip_last)

text \<open>
  C1. For every input string, \<open>sanitize_text\<close> returns a text that (1) is in canonical
  composed form, (2) holds only code points that are printable or one of newline,
  carriage return and tab, every other code point of the normalised input having been
  replaced by one space before the ends are stripped, and (3) neither starts nor ends
  with whitespace; the empty string is mapped to the empty string. The function of the
  model is total: the source has no raising path on a string argument. The Unicode
  database enters through \<open>ucd_facts\<close>.
\<close>

theorem sanitize_text_valid:
  assumes "ucd_facts db"
  shows "nfc_form db (sanitize_text db x) \<and>
         (\<forall>ch \<in> set (sanitize_text db x). isprintable db ch \<or> ch = 10 \<or> ch = 13 \<or> ch = 9) \<and>
         sanitize_text db x =
           str_strip db (map (\<lambda>ch. if isprintable db ch \<or> ch = 10 \<or> ch = 13 \<or> ch = 9 then ch else 32)
                             (normalize_NFC db x)) \<and>
         (sanitize_text db x \<noteq> [] \<longrightarrow>
            \<not> isspace db (hd (sanitize_text db x)) \<and> \<not> isspace db (last (sanitize_text db x))) \<and>
         sanitize_text db [] = []"
proof (intro conjI)
  show "nfc_form db (sanitize_text db x)"
    using assms by (rule nfc_form_sanitize)
  have sp: "isprintable db 32" using assms by (simp add: ucd_facts_def)
  show "\<forall>ch \<in> set (sanitize_text db x). isprintable db ch \<or> ch = 10 \<or> ch = 13 \<or> ch = 9"
  proof
    fix ch assume "ch \<in> set (sanitize_text db x)"
    with sp have "kept db ch" by (rule kept_sanitize)
    then show "isprintable db ch \<or> ch = 10 \<or> ch = 13 \<or> ch = 9"
      by (auto simp: kept_def)
  qed
  have "scrub db = (\<lambda>ch. if isprintable db ch \<or> ch = 10 \<or> ch = 13 \<or> ch = 9 then ch else 32)"
    by (rule ext) (simp add: scrub_def kept_def)
  then show "sanitize_text db x =
      str_strip db (map (\<lambda>ch. if isprintable db ch \<or> ch = 10 \<or> ch = 13 \<or> ch = 9 then ch else 32)
                        (normalize_NFC db x))"
    by (simp add: sanitize_text_eq)
  show "sanitize_text db x \<noteq> [] \<longrightarrow>
      \<not> isspace db (hd (sanitize_text db x)) \<and> \<not> isspace db (last (sanitize_text db x))"
    using sanitize_text_ends by blast
  show "sanitize_text db [] = []"
    using assms by (rule sanitize_text_empty)
qed

text \<open>
  The witness runs the sanitizer on \<open>" a\\0b\\n"\<close>: the NUL becomes a space, the outer
  space and newline are stripped.
\<close>

theorem sanitize_text_valid_witness:
  "sanitize_text ascii_db [32, 97, 0, 98, 10] = [97, 32, 98] \<and>
   nfc_form ascii_db (sanitize_text ascii_db [32, 97, 0, 98, 10]) \<and>
   \<not> isspace ascii_db (hd (sanitize_text ascii_db [32, 97, 0, 98, 10])) \<and>
   \<not> isspace ascii_db (last (sanitize_text ascii_db [32, 97, 0, 98, 10])) \<and>
   sanitize_text ascii_db [] = []"
proof -
  have v: "sanitize_text ascii_db [32, 97, 0, 98, 10] = [97, 32, 98]"
    by (simp add: sanitize_text_def str_strip_def ascii_db_def)
  then have ne: "sanitize_text ascii_db [32, 97, 0, 98, 10] \<noteq> []" by simp
  show ?thesis
    using sanitize_text_valid [OF ascii_db_facts, of "[32, 97, 0, 98, 10]"] v ne
    by blast
qed

text \<open>
  C4. The sanitizer is idempotent: sanitizing a sanitized text changes nothing.
\<close>

theorem sanitize_text_idempotent:
  assumes "ucd_facts db"
  shows "sanitize_text db (sanitize_text db x) = sanitize_text db x"
proof -
  let ?y = "sanitize_text db x"
  have sp: "isprintable db 32" using assms by (simp add: ucd_facts_def)
  have "nfc_form db ?y" using assms by (rule nfc_form_sanitize)
  then have n: "normalize_NFC db ?y = ?y" by (simp add: nfc_form_def)
  have "\<And>ch. ch \<in> set ?y \<Longrightarrow> scrub db ch = ch"
    using sp by (simp add: kept_sanitize scrub_kept)
  then have m: "map (scrub db) ?y = ?y" by (simp add: map_idI)
  have s: "str_strip db ?y = ?y"
    unfolding sanitize_text_eq by (rule str_strip_idem)
  have "sanitize_text db ?y = str_strip db (map (scrub db) (normalize_NFC db ?y))"
    by (rule sanitize_text_eq)
  also have "\<dots> = ?y" by (simp only: n m s)
  finally show ?thesis .
qed

theorem sanitize_text_idempotent_witness:
  "sanitize_text ascii_db (sanitize_text ascii_db [32, 97, 0, 98, 10]) =
   sanitize_text ascii_db [32, 97, 0, 98, 10]"
  using ascii_db_facts by (rule sanitize_text_idempotent)

section \<open>Properties of the extractors and the dispatcher\<close>

text \<open>
  C2. A parser exception is meant to give the empty string and an error in the log. The
  two PDF readers return what was collected before the exception instead: with one page
  read and the next one raising, the text is that of the first page.
\<close>

theorem pdf_partial_text_on_exception:
  "extract_text_from_file (pymupdf_env [Inr (u ''A''), Inl (Exn ''RuntimeError'')]) (u ''a.pdf'') =
     (u ''A'', [Log ERROR ''Error reading PDF (PyMuPDF) %s: %s''
                  [ArgStr (u ''a.pdf''), ArgExn (Exn ''RuntimeError'')]]) \<and>
   extract_text_from_file_zip (pypdf2_env [Inr (Some (u ''A'')), Inl (Exn ''RuntimeError'')]) (u ''a.pdf'') =
     (u ''A'', [Log ERROR ''Error reading PDF (PyPDF2) %s: %s''
                  [ArgStr (u ''a.pdf''), ArgExn (Exn ''RuntimeError'')]])"
  by (simp add: extract_text_from_file_def extract_text_from_file_zip_def eval_defs
        read_pdf_pymupdf_def read_pdf_pypdf2_def)

text \<open>The other readers, and the PDF readers when opening fails, return the empty string.\<close>

lemma readers_fail_closed:
  "open_read_utf8 env p = Inl e \<Longrightarrow> fst (read_plaintext env p) = []"
  "docx_Document env p = Inl e \<Longrightarrow> fst (read_docx env p) = []"
  "odf_load env p = Inl e \<Longrightarrow> fst (read_odt env p) = []"
  "openpyxl_load_workbook env p = Inl e \<Longrightarrow> fst (read_excel env p) = []"
  "json_load env p = Inl e \<Longrightarrow> fst (read_ipynb env p) = []"
  "fitz_open env p = Inl e \<Longrightarrow> fst (read_pdf_pymupdf env p) = []"
  "PyPDF2_PdfReader env p = Inl e \<Longrightarrow> fst (read_pdf_pypdf2 env p) = []"
  by (simp_all add: read_plaintext_def read_docx_def read_odt_def read_excel_def read_ipynb_def
        read_pdf_pymupdf_def read_pdf_pypdf2_def)

text \<open>
  C3. When the module a category needs was not imported, the dispatcher returns the
  empty string: without a logger call for \<open>.docx\<close>, \<open>.odt\<close> and the spreadsheet
  extensions, with one warning for \<open>.pdf\<close> when neither PDF module is there. This holds
  for the dispatcher of each of the three scripts.
\<close>

theorem capability_missing_empty:
  "(ext_of env filepath = u ''.docx'' \<and> \<not> docx env \<or>
    ext_of env filepath = u ''.odt'' \<and> \<not> odf env \<or>
    ext_of env filepath \<in> set (map u [''.xlsx'', ''.xls'', ''.xlsm'', ''.ods'']) \<and> \<not> openpyxl env
    \<longrightarrow> extract_text_from_file env filepath = ([], []) \<and>
        extract_text_from_file_zip env filepath = ([], []) \<and>
        extract_text_from_file_utf8 env filepath = ([], [])) \<and>
   (ext_of env filepath = u ''.pdf'' \<and> \<not> fitz env \<and> \<not> PyPDF2 env
    \<longrightarrow> extract_text_from_file env filepath =
          ([], [Log WARNING ''No PDF library installed; cannot parse PDFs.'' []]) \<and>
        extract_text_from_file_zip env filepath =
          ([], [Log WARNING ''No PDF library installed; cannot parse PDFs.'' []]) \<and>
        extract_text_from_file_utf8 env filepath =
          ([], [Log WARNING ''No PDF library installed; cannot parse PDFs.'' []]))"
  by (auto simp add: extract_text_from_file_def extract_text_from_file_zip_def
        extract_text_from_file_utf8_def Let_def u_def)

theorem capability_missing_empty_witness:
  "extract_text_from_file demo_env (u ''Report.DOCX'') = ([], []) \<and>
   extract_text_from_file_zip demo_env (u ''Report.DOCX'') = ([], []) \<and>
   extract_text_from_file_utf8 demo_env (u ''Report.DOCX'') = ([], []) \<and>
   extract_text_from_file demo_env (u ''dir/scan.pdf'') =
     ([], [Log WARNING ''No PDF library installed; cannot parse PDFs.'' []])"
proof -
  have 1: "ext_of demo_env (u ''Report.DOCX'') = u ''.docx''"
    by (simp add: eval_defs)
  have 2: "\<not> docx demo_env" by (simp add: demo_env_def)
  have 3: "ext_of demo_env (u ''dir/scan.pdf'') = u ''.pdf''"
    by (simp add: eval_defs)
  have 4: "\<not> fitz demo_env \<and> \<not> PyPDF2 demo_env" by (simp add: demo_env_def)
  show ?thesis
    using capability_missing_empty [of demo_env "u ''Report.DOCX''"]
      capability_missing_empty [of demo_env "u ''dir/scan.pdf''"] 1 2 3 4
    by blast
qed

text \<open>
  C9. The dispatchers of the three scripts agree: for every environment and path they
  return the same text and log at the same levels; those of \<^verbatim>\<open>files_2_text.py\<close> and
  \<^verbatim>\<open>raw_text_2_utf8.py\<close> are equal outright, that of \<^verbatim>\<open>files_2_zip.py\<close> words one
  warning differently.
\<close>

theorem extract_variants_agree:
  "fst (extract_text_from_file env filepath) = fst (extract_text_from_file_zip env filepath) \<and>
   fst (extract_text_from_file_zip env filepath) = fst (extract_text_from_file_utf8 env filepath) \<and>
   map level_of (snd (extract_text_from_file env filepath)) =
     map level_of (snd (extract_text_from_file_zip env filepath)) \<and>
   extract_text_from_file env filepath = extract_text_from_file_utf8 env filepath"
  by (simp add: extract_text_from_file_def extract_text_from_file_zip_def
        extract_text_from_file_utf8_def Let_def)

lemma rows_loop_append: "rows_loop text_chunks rows = text_chunks @ map row_str rows"
  by (induction rows arbitrary: text_chunks) simp_all

lemma sheets_loop_concat:
  assumes "distinct (map fst wb)"
  shows "set sub \<subseteq> set wb \<Longrightarrow>
         sheets_loop wb text_chunks (map fst sub) =
           Inr (text_chunks @ concat (map (\<lambda>sheet. map row_str (snd sheet)) sub))"
proof (induction sub arbitrary: text_chunks)
  case Nil
  then show ?case by simp
next
  case (Cons sheet sub)
  obtain name rows where sheet: "sheet = (name, rows)" by (cases sheet)
  with Cons.prems have "(name, rows) \<in> set wb" by simp
  with assms have m: "map_of wb name = Some rows" by (rule map_of_is_SomeI)
  from Cons.prems have sub: "set sub \<subseteq> set wb" by simp
  have "sheets_loop wb text_chunks (map fst (sheet # sub)) =
        sheets_loop wb (rows_loop text_chunks rows) (map fst sub)"
    by (simp add: sheet m)
  also have "\<dots> = Inr (rows_loop text_chunks rows @ concat (map (\<lambda>sheet. map row_str (snd sheet)) sub))"
    using sub by (rule Cons.IH)
  also have "\<dots> = Inr (text_chunks @ concat (map (\<lambda>sheet. map row_str (snd sheet)) (sheet # sub)))"
    by (simp add: sheet rows_loop_append)
  finally show ?case .
qed

lemma read_excel_ok:
  assumes "openpyxl_load_workbook env filepath = Inr wb" and "distinct (map fst wb)"
  shows "read_excel env filepath =
           (str_join [10] (concat (map (\<lambda>sheet. map row_str (snd sheet)) wb)), [])"
proof -
  have "sheets_loop wb [] (map fst wb) =
          Inr ([] @ concat (map (\<lambda>sheet. map row_str (snd sheet)) wb))"
    using assms(2) subset_refl by (rule sheets_loop_concat)
  with assms(1) show ?thesis by (simp add: read_excel_def)
qed

lemma dispatch_excel:
  assumes "ext_of env filepath \<in> set (map u [''.xlsx'', ''.xls'', ''.xlsm'', ''.ods''])"
    and "openpyxl env"
  shows "extract_text_from_file env filepath = read_excel env filepath"
proof -
  from assms(1) have "ext_of env filepath = u ''.xlsx'' \<or> ext_of env filepath = u ''.xls'' \<or>
      ext_of env filepath = u ''.xlsm'' \<or> ext_of env filepath = u ''.ods''"
    by simp
  then show ?thesis
    using assms(2)
    by (elim disjE) (simp_all add: extract_text_from_file_def Let_def u_def)
qed

text \<open>
  C7. When the workbook is read, the spreadsheet extractor renders each row as its cell
  values joined by tabs, an empty cell as the empty string, takes the sheets in workbook
  order and their rows in sheet order, and joins all rows with newlines. Sheet names
  are distinct, as in every workbook.
\<close>

theorem spreadsheet_rows_in_order:
  assumes "ext_of env filepath \<in> set (map u [''.xlsx'', ''.xls'', ''.xlsm'', ''.ods''])"
    and "openpyxl env"
    and "openpyxl_load_workbook env filepath = Inr wb"
    and "distinct (map fst wb)"
  shows "extract_text_from_file env filepath =
           (str_join [10] (concat (map (\<lambda>sheet. map (\<lambda>row. str_join [9] (map cell_str row)) (snd sheet)) wb)), []) \<and>
         cell_str CellNone = []"
proof
  show "extract_text_from_file env filepath =
           (str_join [10] (concat (map (\<lambda>sheet. map (\<lambda>row. str_join [9] (map cell_str row)) (snd sheet)) wb)), [])"
    using dispatch_excel [OF assms(1,2)] read_excel_ok [OF assms(3,4)] by (rule trans)
  show "cell_str CellNone = []" by simp
qed

theorem spreadsheet_rows_in_order_witness:
  "extract_text_from_file (excel_env two_sheets) (u ''book.xlsx'') =
     ([97, 9, 9, 98, 10, 97, 9, 9, 98], [])"
proof -
  have 1: "ext_of (excel_env two_sheets) (u ''book.xlsx'') \<in> set (map u [''.xlsx'', ''.xls'', ''.xlsm'', ''.ods''])"
    by (simp add: eval_defs)
  have 2: "openpyxl (excel_env two_sheets)" by (simp add: eval_defs)
  have 3: "openpyxl_load_workbook (excel_env two_sheets) (u ''book.xlsx'') = Inr two_sheets"
    by (simp add: excel_env_def demo_env_def)
  have 4: "distinct (map fst two_sheets)" by (simp add: two_sheets_def u_def)
  have "extract_text_from_file (excel_env two_sheets) (u ''book.xlsx'') =
     (str_join [10] (concat (map (\<lambda>sheet. map (\<lambda>row. str_join [9] (map cell_str row)) (snd sheet)) two_sheets)), [])"
    using spreadsheet_rows_in_order [OF 1 2 3 4] by (rule conjunct1)
  also have "\<dots> = ([97, 9, 9, 98, 10, 97, 9, 9, 98], [])"
    by (simp add: two_sheets_def u_def)
  finally show ?thesis .
qed

lemma join_items_strs: "join_items acc (map JStr frags) = Inr (acc @ concat frags)"
  by (induction frags arbitrary: acc) simp_all

lemma has_sourceD:
  "has_source cell frags \<Longrightarrow> \<exists>kvs. cell = JObj kvs \<and> map_of kvs (u ''source'') = Some (JArr (map JStr frags))"
  by (cases cell) (simp_all add: has_source_def)

lemma cells_loop_step:
  assumes "has_source cell frags"
  shows "cells_loop text_cells (cell # cells) = cells_loop (text_cells @ [concat frags]) cells"
proof -
  from assms obtain kvs where c: "cell = JObj kvs"
    and m: "map_of kvs (u ''source'') = Some (JArr (map JStr frags))"
    using has_sourceD by blast
  have "empty_join (JArr (map JStr frags)) = Inr (concat frags)"
    by (simp add: empty_join_def join_items_strs)
  then show ?thesis by (simp add: c m)
qed

lemma cells_loop_sources:
  "list_all2 has_source cells srcs \<Longrightarrow>
   cells_loop text_cells cells = Inr (text_cells @ map concat srcs)"
proof (induction cells srcs arbitrary: text_cells rule: list_all2_induct)
  case Nil
  then show ?case by simp
next
  case (Cons cell cells frags srcs)
  have "cells_loop text_cells (cell # cells) = cells_loop (text_cells @ [concat frags]) cells"
    using Cons.hyps(1) by (rule cells_loop_step)
  also have "\<dots> = Inr ((text_cells @ [concat frags]) @ map concat srcs)"
    by (rule Cons.IH)
  finally show ?case by simp
qed

lemma dispatch_ipynb:
  assumes "ext_of env filepath = u ''.ipynb''"
  shows "extract_text_from_file env filepath = read_ipynb env filepath"
  using assms by (simp add: extract_text_from_file_def Let_def u_def)

lemma read_ipynb_cells:
  assumes "json_load env filepath = Inr (JObj kvs)"
    and "map_of kvs (u ''cells'') = Some (JArr cells)"
    and "cells_loop [] cells = Inr text_cells"
  shows "read_ipynb env filepath = (str_join [10] text_cells, [])"
  using assms by (simp add: read_ipynb_def ipynb_text_def)

text \<open>
  C8. For a notebook that parses to an object whose \<open>"cells"\<close> is a list of cells, each
  with a list of source fragments, the extractor concatenates the fragments of each cell
  in order, with no separator, and joins the cell texts with newlines.
\<close>

theorem notebook_cells_joined:
  assumes "ext_of env filepath = u ''.ipynb''"
    and "json_load env filepath = Inr (JObj kvs)"
    and "map_of kvs (u ''cells'') = Some (JArr cells)"
    and "list_all2 has_source cells srcs"
  shows "extract_text_from_file env filepath = (str_join [10] (map concat srcs), [])"
proof -
  have "cells_loop [] cells = Inr ([] @ map concat srcs)"
    using assms(4) by (rule cells_loop_sources)
  then have "cells_loop [] cells = Inr (map concat srcs)" by simp
  with assms(2,3) have "read_ipynb env filepath = (str_join [10] (map concat srcs), [])"
    by (rule read_ipynb_cells)
  with dispatch_ipynb [OF assms(1)] show ?thesis by (rule trans)
qed

theorem notebook_cells_joined_witness:
  "extract_text_from_file (ipynb_env (JObj [(u ''cells'', JArr two_cells)])) (u ''nb.ipynb'') =
     (u ''print(1)'' @ [10] @ u ''x = 2'' @ [10] @ u ''y = 3'', [])"
proof -
  let ?env = "ipynb_env (JObj [(u ''cells'', JArr two_cells)])"
  have 1: "ext_of ?env (u ''nb.ipynb'') = u ''.ipynb''"
    by (simp add: eval_defs)
  have 2: "json_load ?env (u ''nb.ipynb'') = Inr (JObj [(u ''cells'', JArr two_cells)])"
    by (simp add: ipynb_env_def demo_env_def)
  have 3: "map_of [(u ''cells'', JArr two_cells)] (u ''cells'') = Some (JArr two_cells)"
    by simp
  have 4: "list_all2 has_source two_cells [[u ''print(1)''], [u ''x = 2'' @ [10], u ''y = 3'']]"
    by (simp add: has_source_def two_cells_def)
  have "extract_text_from_file ?env (u ''nb.ipynb'') =
      (str_join [10] (map concat [[u ''print(1)''], [u ''x = 2'' @ [10], u ''y = 3'']]), [])"
    using 1 2 3 4 by (rule notebook_cells_joined)
  also have "\<dots> = (u ''print(1)'' @ [10] @ u ''x = 2'' @ [10] @ u ''y = 3'', [])"
    by simp
  finally show ?thesis .
qed

lemma join_items_ok: "(\<exists>t. join_items acc items = Inr t) \<longleftrightarrow> list_all is_str items"
proof (induction items arbitrary: acc)
  case Nil
  then show ?case by simp
next
  case (Cons v items)
  then show ?case by (cases v) simp_all
qed

lemma join_items_chars: "join_items acc (map (\<lambda>c. JStr [c]) s) = Inr (acc @ s)"
  by (induction s arbitrary: acc) simp_all

lemma join_items_keys: "join_items acc (map (\<lambda>kv. JStr (fst kv)) kvs) = Inr (acc @ concat (map fst kvs))"
  by (induction kvs arbitrary: acc) simp_all

lemma empty_join_ok: "(\<exists>t. empty_join src = Inr t) \<longleftrightarrow> joinable src"
  by (cases src)
     (simp_all add: empty_join_def joinable_def join_items_ok join_items_chars join_items_keys)

lemma cell_text_ok:
  "(\<exists>t. (case dict_get cell (u ''source'') (JArr []) of Inl e \<Rightarrow> Inl e | Inr src \<Rightarrow> empty_join src) = Inr t)
     \<longleftrightarrow> cell_ok cell"
proof (cases cell)
  case (JObj kvs)
  show ?thesis
  proof (cases "map_of kvs (u ''source'')")
    case None
    then show ?thesis by (simp add: JObj cell_ok_def empty_join_def)
  next
    case (Some src)
    then show ?thesis by (simp add: JObj cell_ok_def empty_join_ok)
  qed
qed (simp_all add: cell_ok_def)

lemma cells_loop_ok: "(\<exists>ts. cells_loop text_cells items = Inr ts) \<longleftrightarrow> list_all cell_ok items"
proof (induction items arbitrary: text_cells)
  case Nil
  then show ?case by simp
next
  case (Cons cell items)
  show ?case
  proof (cases "case dict_get cell (u ''source'') (JArr []) of Inl e \<Rightarrow> Inl e | Inr src \<Rightarrow> empty_join src")
    case (Inl e)
    then have "\<not> cell_ok cell" using cell_text_ok [of cell] by simp
    moreover from Inl have "cells_loop text_cells (cell # items) = Inl e"
      by (auto split: sum.splits)
    ultimately show ?thesis by simp
  next
    case (Inr t)
    then have "cell_ok cell" using cell_text_ok [of cell] by simp
    moreover from Inr have "cells_loop text_cells (cell # items) = cells_loop (text_cells @ [t]) items"
      by (auto split: sum.splits)
    ultimately show ?thesis using Cons.IH [of "text_cells @ [t]"] by simp
  qed
qed

lemma ipynb_text_ok: "(\<exists>t. ipynb_text data = Inr t) \<longleftrightarrow> notebook_ok data"
proof (cases data)
  case (JObj kvs)
  show ?thesis
  proof (cases "map_of kvs (u ''cells'')")
    case None
    then show ?thesis by (simp add: JObj ipynb_text_def notebook_ok_def)
  next
    case (Some cells)
    have "(\<exists>t. ipynb_text data = Inr t) \<longleftrightarrow> cells_ok cells"
    proof (cases cells)
      case (JArr items)
      have "(\<exists>t. ipynb_text data = Inr t) \<longleftrightarrow> (\<exists>ts. cells_loop [] items = Inr ts)"
        by (auto simp add: JObj Some JArr ipynb_text_def split: sum.splits)
      then show ?thesis by (simp add: JArr cells_ok_def cells_loop_ok)
    next
      case (JStr s)
      then show ?thesis
        by (cases s) (simp_all add: JObj Some ipynb_text_def cells_ok_def)
    next
      case (JObj ckvs)
      then show ?thesis
        by (cases ckvs) (simp_all add: \<open>data = JObj kvs\<close> Some ipynb_text_def cells_ok_def)
    qed (simp_all add: JObj Some ipynb_text_def cells_ok_def)
    then show ?thesis by (simp add: JObj Some notebook_ok_def)
  qed
qed (simp_all add: ipynb_text_def notebook_ok_def)

lemma cells_loop_no_source:
  "list_all no_source cells \<Longrightarrow>
   cells_loop text_cells cells = Inr (text_cells @ replicate (length cells) [])"
proof (induction cells arbitrary: text_cells)
  case Nil
  then show ?case by simp
next
  case (Cons cell cells)
  from Cons.prems obtain kvs where c: "cell = JObj kvs" and m: "map_of kvs (u ''source'') = None"
    by (cases cell) (simp_all add: no_source_def)
  from Cons.prems have rest: "list_all no_source cells" by simp
  have "cells_loop text_cells (cell # cells) = cells_loop (text_cells @ [[]]) cells"
    by (simp add: c m empty_join_def)
  also have "\<dots> = Inr ((text_cells @ [[]]) @ replicate (length cells) [])"
    using rest by (rule Cons.IH)
  finally show ?case by (simp add: replicate_append_same)
qed

lemma str_join_empties: "str_join [10] (replicate n []) = replicate (n - 1) 10"
proof (induction n)
  case 0
  then show ?case by simp
next
  case (Suc n)
  then show ?case by (cases n) simp_all
qed

lemma read_ipynb_log:
  "read_ipynb env filepath =
     (case (case json_load env filepath of Inl e \<Rightarrow> Inl e | Inr data \<Rightarrow> ipynb_text data) of
        Inr t \<Rightarrow> (t, [])
      | Inl e \<Rightarrow> ([], [Log ERROR ''Error reading IPYNB %s: %s'' [ArgStr filepath, ArgExn e]]))"
  by (simp add: read_ipynb_def)

lemma read_ipynb_shape:
  assumes "json_load env filepath = Inr data"
  shows "(notebook_ok data \<longrightarrow> snd (read_ipynb env filepath) = []) \<and>
         (\<not> notebook_ok data \<longrightarrow>
            (\<exists>e. read_ipynb env filepath =
               ([], [Log ERROR ''Error reading IPYNB %s: %s'' [ArgStr filepath, ArgExn e]])))"
proof (cases "ipynb_text data")
  case (Inl e)
  then have "\<not> notebook_ok data" using ipynb_text_ok [of data] by simp
  moreover from Inl assms have "read_ipynb env filepath =
      ([], [Log ERROR ''Error reading IPYNB %s: %s'' [ArgStr filepath, ArgExn e]])"
    by (simp add: read_ipynb_def)
  ultimately show ?thesis by blast
next
  case (Inr t)
  then have "notebook_ok data" using ipynb_text_ok [of data] by simp
  moreover from Inr assms have "read_ipynb env filepath = (t, [])"
    by (simp add: read_ipynb_def)
  ultimately show ?thesis by simp
qed

lemma read_ipynb_no_cells:
  assumes "json_load env filepath = Inr (JObj kvs)" and "map_of kvs (u ''cells'') = None"
  shows "read_ipynb env filepath = ([], [])"
  using assms by (simp add: read_ipynb_def ipynb_text_def)

lemma read_ipynb_no_source:
  assumes "json_load env filepath = Inr (JObj kvs)"
    and "map_of kvs (u ''cells'') = Some (JArr cells)"
    and "list_all no_source cells"
  shows "read_ipynb env filepath = (replicate (length cells - 1) 10, [])"
proof -
  have "cells_loop [] cells = Inr ([] @ replicate (length cells) [])"
    using assms(3) by (rule cells_loop_no_source)
  then have "cells_loop [] cells = Inr (replicate (length cells) [])" by simp
  with assms(1,2) have "read_ipynb env filepath = (str_join [10] (replicate (length cells) []), [])"
    by (rule read_ipynb_cells)
  then show ?thesis by (simp only: str_join_empties)
qed

text \<open>
  C10, as the code has it. For a notebook that parses to an object: without a
  \<open>"cells"\<close> key the result is the empty string and nothing is logged; \<open>n\<close> cells that are
  objects without a \<open>"source"\<close> key give \<open>n - 1\<close> newlines and nothing is logged. The
  logged-error branch is taken when the file cannot be read or parsed, and also for a
  parsed object that is not of the shape \<open>notebook_ok\<close>; for one of that shape nothing is
  logged.
\<close>

theorem notebook_missing_keys:
  "(json_load env filepath = Inr (JObj kvs) \<and> map_of kvs (u ''cells'') = None
      \<longrightarrow> read_ipynb env filepath = ([], [])) \<and>
   (json_load env filepath = Inr (JObj kvs) \<and> map_of kvs (u ''cells'') = Some (JArr cells) \<and>
    list_all no_source cells
      \<longrightarrow> read_ipynb env filepath = (replicate (length cells - 1) 10, [])) \<and>
   (json_load env filepath = Inl e
      \<longrightarrow> read_ipynb env filepath =
            ([], [Log ERROR ''Error reading IPYNB %s: %s'' [ArgStr filepath, ArgExn e]])) \<and>
   (json_load env filepath = Inr (JObj kvs) \<and> notebook_ok (JObj kvs)
      \<longrightarrow> snd (read_ipynb env filepath) = []) \<and>
   (json_load env filepath = Inr (JObj kvs) \<and> \<not> notebook_ok (JObj kvs)
      \<longrightarrow> (\<exists>e'. read_ipynb env filepath =
            ([], [Log ERROR ''Error reading IPYNB %s: %s'' [ArgStr filepath, ArgExn e']])))"
proof (intro conjI impI)
  assume "json_load env filepath = Inr (JObj kvs) \<and> map_of kvs (u ''cells'') = None"
  then show "read_ipynb env filepath = ([], [])"
    using read_ipynb_no_cells by blast
next
  assume "json_load env filepath = Inr (JObj kvs) \<and> map_of kvs (u ''cells'') = Some (JArr cells) \<and>
    list_all no_source cells"
  then show "read_ipynb env filepath = (replicate (length cells - 1) 10, [])"
    using read_ipynb_no_source by blast
next
  assume "json_load env filepath = Inl e"
  then show "read_ipynb env filepath =
      ([], [Log ERROR ''Error reading IPYNB %s: %s'' [ArgStr filepath, ArgExn e]])"
    by (simp add: read_ipynb_def)
next
  assume "json_load env filepath = Inr (JObj kvs) \<and> notebook_ok (JObj kvs)"
  then show "snd (read_ipynb env filepath) = []"
    using read_ipynb_shape by blast
next
  assume "json_load env filepath = Inr (JObj kvs) \<and> \<not> notebook_ok (JObj kvs)"
  then show "\<exists>e'. read_ipynb env filepath =
      ([], [Log ERROR ''Error reading IPYNB %s: %s'' [ArgStr filepath, ArgExn e']])"
    using read_ipynb_shape by blast
qed

theorem notebook_missing_keys_witness:
  "read_ipynb (ipynb_env (JObj [])) (u ''nb.ipynb'') = ([], []) \<and>
   read_ipynb (ipynb_env (JObj [(u ''cells'', JArr [JObj [], JObj []])])) (u ''nb.ipynb'') = ([10], [])"
proof -
  have 1: "json_load (ipynb_env (JObj [])) (u ''nb.ipynb'') = Inr (JObj []) \<and> map_of [] (u ''cells'') = None"
    by (simp add: ipynb_env_def demo_env_def)
  have 2: "json_load (ipynb_env (JObj [(u ''cells'', JArr [JObj [], JObj []])])) (u ''nb.ipynb'') =
        Inr (JObj [(u ''cells'', JArr [JObj [], JObj []])]) \<and>
      map_of [(u ''cells'', JArr [JObj [], JObj []])] (u ''cells'') = Some (JArr [JObj [], JObj []]) \<and>
      list_all no_source [JObj [], JObj []]"
    by (simp add: ipynb_env_def demo_env_def no_source_def)
  have a: "read_ipynb (ipynb_env (JObj [])) (u ''nb.ipynb'') = ([], [])"
    using notebook_missing_keys [of "ipynb_env (JObj [])" "u ''nb.ipynb''" "[]"] 1 by blast
  have "read_ipynb (ipynb_env (JObj [(u ''cells'', JArr [JObj [], JObj []])])) (u ''nb.ipynb'') =
      (replicate (length [JObj [], JObj []] - 1) 10, [])"
    using notebook_missing_keys [of "ipynb_env (JObj [(u ''cells'', JArr [JObj [], JObj []])])"
        "u ''nb.ipynb''" "[(u ''cells'', JArr [JObj [], JObj []])]" "[JObj [], JObj []]"] 2
    by blast
  then have b: "read_ipynb (ipynb_env (JObj [(u ''cells'', JArr [JObj [], JObj []])])) (u ''nb.ipynb'') =
      ([10], [])"
    by simp
  from a b show ?thesis by (rule conjI)
qed

text \<open>
  The file \<open>{"cells": 5}\<close> parses to an object, and the reader takes the logged-error
  branch: iterating over the number raises TypeError.
\<close>

theorem notebook_object_logs_error:
  "json_load (ipynb_env (JObj [(u ''cells'', JInt 5)])) (u ''nb.ipynb'') =
     Inr (JObj [(u ''cells'', JInt 5)]) \<and>
   read_ipynb (ipynb_env (JObj [(u ''cells'', JInt 5)])) (u ''nb.ipynb'') =
     ([], [Log ERROR ''Error reading IPYNB %s: %s''
             [ArgStr (u ''nb.ipynb''), ArgExn (Exn ''TypeError'')]])"
  by (simp add: ipynb_env_def demo_env_def read_ipynb_def ipynb_text_def)

section \<open>Properties of the orchestrator\<close>

lemma str_strip_whitespace:
  assumes "list_all (isspace db) s"
  shows "str_strip db s = []"
proof -
  from assms have "dropWhile (isspace db) s = []"
    by (induction s) simp_all
  then show ?thesis
    unfolding str_strip_def by (simp only: rev.simps dropWhile.simps)
qed

lemma sanitize_text_whitespace:
  assumes "list_all (isspace db) (sanitize_text db x)"
  shows "sanitize_text db x = []"
proof (rule ccontr)
  assume ne: "sanitize_text db x \<noteq> []"
  then have "\<not> isspace db (hd (sanitize_text db x))"
    using sanitize_text_ends by blast
  moreover from ne have "hd (sanitize_text db x) \<in> set (sanitize_text db x)" by simp
  ultimately show False using assms by (simp add: list_all_iff)
qed

lemma files_log_call: "files (log_call entry w) = files w"
  by (simp add: log_call_def)

lemma extract_sanitize_write_files:
  assumes "sanitize_text (udb env) (fst (extract env full_path)) = []"
  shows "files (extract_sanitize_write extract env fs full_path out_path w) = files w"
  using assms
  by (simp add: extract_sanitize_write_def split_beta Let_def files_log_call)

lemma extract_write_files:
  assumes "str_strip (udb env) (fst (extract_text_from_file env full_path)) = []"
  shows "files (extract_write env fs full_path out_path w) = files w"
  using assms
  by (simp add: extract_write_def split_beta Let_def files_log_call)

lemma visit_file_files:
  assumes "\<And>out_path w0. files w0 = files w \<Longrightarrow>
             files (rest (os_path_join root [file_name]) out_path w0) = files w"
  shows "files (world_of (visit_file env fs cfg rest root file_name w)) = files w"
  using assms
  by (auto simp add: visit_file_def Let_def files_log_call simp del: os_path_join.simps
        split: sum.splits option.splits)

lemma visit_file_returns:
  assumes "out_path_of fs (input_dir cfg) (output_dir cfg) (os_path_join root [file_name]) = Inr out_path"
    and "makedirs_raises fs (dirname out_path) = None"
  shows "\<exists>w1. visit_file env fs cfg rest root file_name w = Inr w1"
  using assms
  by (auto simp add: visit_file_def Let_def simp del: os_path_join.simps split: sum.splits)

lemma files_loop_continues:
  assumes "step file_name w = Inr w1"
  shows "files_loop step (file_name # file_names) w = files_loop step file_names w1"
  using assms by simp

lemma visit_file_skips:
  assumes quiet: "\<And>out_path w0. files w0 = files w \<Longrightarrow>
             files (rest (os_path_join root [file_name]) out_path w0) = files w"
  shows "files (world_of (visit_file env fs cfg rest root file_name w)) = files w \<and>
         (\<forall>out_path. out_path_of fs (input_dir cfg) (output_dir cfg) (os_path_join root [file_name]) = Inr out_path \<and>
             makedirs_raises fs (dirname out_path) = None \<longrightarrow>
           (\<exists>w1. visit_file env fs cfg rest root file_name w = Inr w1 \<and> files w1 = files w \<and>
                 files_loop (visit_file env fs cfg rest root) (file_name # file_names) w =
                 files_loop (visit_file env fs cfg rest root) file_names w1))"
proof (intro conjI allI impI)
  show f: "files (world_of (visit_file env fs cfg rest root file_name w)) = files w"
    using quiet by (rule visit_file_files)
  fix out_path
  assume "out_path_of fs (input_dir cfg) (output_dir cfg) (os_path_join root [file_name]) = Inr out_path \<and>
             makedirs_raises fs (dirname out_path) = None"
  then obtain w1 where w1: "visit_file env fs cfg rest root file_name w = Inr w1"
    using visit_file_returns by blast
  with f have "files w1 = files w" by simp
  moreover from w1 have "files_loop (visit_file env fs cfg rest root) (file_name # file_names) w =
                 files_loop (visit_file env fs cfg rest root) file_names w1"
    by (rule files_loop_continues)
  ultimately show "\<exists>w1. visit_file env fs cfg rest root file_name w = Inr w1 \<and> files w1 = files w \<and>
                 files_loop (visit_file env fs cfg rest root) (file_name # file_names) w =
                 files_loop (visit_file env fs cfg rest root) file_names w1"
    using w1 by blast
qed

lemma sanitizing_step_skips:
  assumes "list_all (isspace (udb env)) (sanitize_text (udb env) (fst (extract env (os_path_join root [file_name]))))"
  shows "files (world_of (visit_file env fs cfg (extract_sanitize_write extract env fs) root file_name w)) = files w \<and>
         (\<forall>out_path. out_path_of fs (input_dir cfg) (output_dir cfg) (os_path_join root [file_name]) = Inr out_path \<and>
             makedirs_raises fs (dirname out_path) = None \<longrightarrow>
           (\<exists>w1. visit_file env fs cfg (extract_sanitize_write extract env fs) root file_name w = Inr w1 \<and>
                 files w1 = files w \<and>
                 files_loop (visit_file env fs cfg (extract_sanitize_write extract env fs) root) (file_name # file_names) w =
                 files_loop (visit_file env fs cfg (extract_sanitize_write extract env fs) root) file_names w1))"
proof (rule visit_file_skips)
  fix out_path and w0 :: world
  assume same: "files w0 = files w"
  from assms have "sanitize_text (udb env) (fst (extract env (os_path_join root [file_name]))) = []"
    by (rule sanitize_text_whitespace)
  then have "files (extract_sanitize_write extract env fs (os_path_join root [file_name]) out_path w0) = files w0"
    by (rule extract_sanitize_write_files)
  with same show "files (extract_sanitize_write extract env fs (os_path_join root [file_name]) out_path w0) = files w"
    by simp
qed

lemma text_step_skips:
  assumes "list_all (isspace (udb env)) (fst (extract_text_from_file env (os_path_join root [file_name])))"
  shows "files (world_of (visit_file env fs cfg (extract_write env fs) root file_name w)) = files w \<and>
         (\<forall>out_path. out_path_of fs (input_dir cfg) (output_dir cfg) (os_path_join root [file_name]) = Inr out_path \<and>
             makedirs_raises fs (dirname out_path) = None \<longrightarrow>
           (\<exists>w1. visit_file env fs cfg (extract_write env fs) root file_name w = Inr w1 \<and>
                 files w1 = files w \<and>
                 files_loop (visit_file env fs cfg (extract_write env fs) root) (file_name # file_names) w =
                 files_loop (visit_file env fs cfg (extract_write env fs) root) file_names w1))"
proof (rule visit_file_skips)
  fix out_path and w0 :: world
  assume same: "files w0 = files w"
  from assms have "str_strip (udb env) (fst (extract_text_from_file env (os_path_join root [file_name]))) = []"
    by (rule str_strip_whitespace)
  then have "files (extract_write env fs (os_path_join root [file_name]) out_path w0) = files w0"
    by (rule extract_write_files)
  with same show "files (extract_write env fs (os_path_join root [file_name]) out_path w0) = files w"
    by simp
qed

lemmas path_eval_defs = startswith_def endswith_def

subsection \<open>No empty file is left\<close>

lemma no_empty_file_cong: "files w1 = files w \<Longrightarrow> no_empty_file w1 = no_empty_file w"
  by (simp add: no_empty_file_def)

lemma no_empty_file_log: "no_empty_file (log_call entry w) = no_empty_file w"
  by (simp add: no_empty_file_def log_call_def)

lemma write_text_no_empty:
  assumes "whole_writes fs" and "content \<noteq> []" and "no_empty_file w"
  shows "no_empty_file (write_text fs out_path content w)"
proof (cases "open_write fs out_path content")
  case Written
  with assms(2,3) show ?thesis
    by (simp add: write_text_def no_empty_file_def log_call_def)
next
  case (OpenRaises e)
  with assms(3) show ?thesis
    by (simp add: write_text_def no_empty_file_def log_call_def)
next
  case (WriteRaises e partial)
  with assms(1) have "partial \<noteq> []" by (auto simp add: whole_writes_def)
  with WriteRaises assms(3) show ?thesis
    by (simp add: write_text_def no_empty_file_def log_call_def)
qed

lemma extract_sanitize_write_no_empty:
  assumes "whole_writes fs" and "no_empty_file w"
  shows "no_empty_file (extract_sanitize_write extract env fs full_path out_path w)"
proof -
  obtain raw calls where x: "extract env full_path = (raw, calls)" by (cases "extract env full_path")
  let ?w1 = "w \<lparr> logged := logged w @ calls \<rparr>"
  from assms(2) have w1: "no_empty_file ?w1" by (simp add: no_empty_file_def)
  show ?thesis
  proof (cases "sanitize_text (udb env) raw = []")
    case True
    with w1 show ?thesis
      by (simp add: extract_sanitize_write_def x Let_def no_empty_file_log)
  next
    case False
    have "no_empty_file (write_text fs out_path (sanitize_text (udb env) raw) ?w1)"
      by (intro write_text_no_empty assms(1) w1 False)
    with False show ?thesis
      by (simp add: extract_sanitize_write_def x Let_def)
  qed
qed

lemma extract_write_no_empty:
  assumes "whole_writes fs" and "no_empty_file w"
  shows "no_empty_file (extract_write env fs full_path out_path w)"
proof -
  obtain raw calls where x: "extract_text_from_file env full_path = (raw, calls)"
    by (cases "extract_text_from_file env full_path")
  let ?w1 = "w \<lparr> logged := logged w @ calls \<rparr>"
  from assms(2) have w1: "no_empty_file ?w1" by (simp add: no_empty_file_def)
  show ?thesis
  proof (cases "str_strip (udb env) raw = []")
    case True
    with w1 show ?thesis
      by (simp add: extract_write_def x Let_def no_empty_file_log)
  next
    case False
    then have "raw \<noteq> []" by (auto simp add: str_strip_def)
    then have "no_empty_file (write_text fs out_path raw ?w1)"
      by (intro write_text_no_empty assms(1) w1)
    with False show ?thesis
      by (simp add: extract_write_def x Let_def)
  qed
qed

lemma visit_file_no_empty:
  assumes "\<And>full_path out_path w0. no_empty_file w0 \<Longrightarrow> no_empty_file (rest full_path out_path w0)"
    and "no_empty_file w"
  shows "no_empty_file (world_of (visit_file env fs cfg rest root file_name w))"
proof -
  have md: "\<And>d. no_empty_file (w \<lparr> made_dirs := made_dirs w @ [d] \<rparr>)"
    using assms(2) by (simp add: no_empty_file_def)
  show ?thesis
    using assms md
    by (auto simp add: visit_file_def Let_def no_empty_file_log simp del: os_path_join.simps
          split: sum.splits option.splits)
qed

lemma files_loop_no_empty:
  assumes "\<And>file_name w0. no_empty_file w0 \<Longrightarrow> no_empty_file (world_of (step file_name w0))"
  shows "no_empty_file w \<Longrightarrow> no_empty_file (world_of (files_loop step file_names w))"
proof (induction file_names arbitrary: w)
  case Nil
  then show ?case by simp
next
  case (Cons file_name file_names)
  from Cons.prems have s: "no_empty_file (world_of (step file_name w))" by (rule assms)
  show ?case
  proof (cases "step file_name w")
    case (Inl raised)
    with s show ?thesis by simp
  next
    case (Inr w1)
    with s have "no_empty_file w1" by simp
    then have "no_empty_file (world_of (files_loop step file_names w1))" by (rule Cons.IH)
    with Inr show ?thesis by simp
  qed
qed

lemma walk_no_empty:
  "step_keeps step \<Longrightarrow> no_empty_file w \<Longrightarrow> no_empty_file (world_of (walk step hide root t w))"
  "step_keeps step \<Longrightarrow> no_empty_file w \<Longrightarrow> no_empty_file (world_of (walk_dirs step hide root dirs w))"
proof (induction step hide root t w and step hide root dirs w rule: walk_walk_dirs.induct)
  case (1 step hide root file_names dirs w)
  have "\<And>file_name w0. no_empty_file w0 \<Longrightarrow> no_empty_file (world_of (step root file_name w0))"
    using "1.prems"(1) by (simp add: step_keeps_def)
  then have f: "no_empty_file (world_of (files_loop (step root) file_names w))"
    using "1.prems"(2) by (rule files_loop_no_empty)
  show ?case
  proof (cases "files_loop (step root) file_names w")
    case (Inl raised)
    with f show ?thesis by simp
  next
    case (Inr w1)
    with f have "no_empty_file w1" by simp
    with Inr "1.prems"(1) have "no_empty_file (world_of (walk_dirs step hide root dirs w1))"
      by (intro "1.IH")
    with Inr show ?thesis by simp
  qed
next
  case (2 step hide root w)
  then show ?case by simp
next
  case (3 step hide root d t dirs w)
  show ?case
  proof (cases "hide \<and> startswith d [46]")
    case True
    with "3.prems" have "no_empty_file (world_of (walk_dirs step hide root dirs w))"
      by (intro "3.IH"(1))
    with True show ?thesis by simp
  next
    case False
    with "3.prems" have s: "no_empty_file (world_of (walk step hide (os_path_join root [d]) t w))"
      by (intro "3.IH"(2))
    show ?thesis
    proof (cases "walk step hide (os_path_join root [d]) t w")
      case (Inl raised)
      with s False show ?thesis by (auto simp del: os_path_join.simps)
    next
      case (Inr w1)
      with s have "no_empty_file w1" by simp
      with False Inr "3.prems"(1) have "no_empty_file (world_of (walk_dirs step hide root dirs w1))"
        by (intro "3.IH"(3))
      with False Inr show ?thesis by (auto simp del: os_path_join.simps)
    qed
  qed
qed

lemma convert_run_no_empty:
  assumes "\<And>root file_name w0. no_empty_file w0 \<Longrightarrow> no_empty_file (world_of (step root file_name w0))"
    and "no_empty_file w"
  shows "no_empty_file (world_of (convert_run step fs cfg t w))"
proof (cases "ensure_output_dir fs cfg w")
  case (Inl raised)
  then have "world_of (Inl raised) = w"
    by (auto simp add: ensure_output_dir_def split: if_splits option.splits)
  with Inl assms(2) show ?thesis by (simp add: convert_run_def)
next
  case (Inr w0)
  then have "files w0 = files w"
    by (auto simp add: ensure_output_dir_def split: if_splits option.splits)
  with assms(2) have "no_empty_file w0" by (simp add: no_empty_file_def)
  then have start: "no_empty_file (log_call (Log INFO ''Starting conversion from %s to %s''
                               [ArgStr (input_dir cfg), ArgStr (output_dir cfg)]) w0)"
    by (simp add: no_empty_file_log)
  have "step_keeps step" using assms(1) by (simp add: step_keeps_def)
  then have "no_empty_file (world_of (walk step (skip_hidden cfg) (input_dir cfg) t
      (log_call (Log INFO ''Starting conversion from %s to %s''
                               [ArgStr (input_dir cfg), ArgStr (output_dir cfg)]) w0)))"
    using start by (rule walk_no_empty(1))
  with Inr show ?thesis
    by (auto simp add: convert_run_def no_empty_file_log split: sum.splits)
qed

text \<open>
  No run leaves an empty file behind, unless a write fails after \<open>open\<close> has created the
  file and before anything reached it.
\<close>

lemma run_leaves_no_empty_file:
  assumes "whole_writes fs" and "no_empty_file w"
  shows "no_empty_file (world_of (convert_files_to_txt env fs cfg t w))"
    and "no_empty_file (world_of (convert_files_to_txt_zip env fs cfg t w))"
    and "no_empty_file (world_of (convert_files_to_txt_utf8 env fs cfg t w))"
proof -
  show "no_empty_file (world_of (convert_files_to_txt env fs cfg t w))"
    unfolding convert_files_to_txt_def convert_file_text_def
    by (intro convert_run_no_empty visit_file_no_empty extract_write_no_empty assms)
  show "no_empty_file (world_of (convert_files_to_txt_zip env fs cfg t w))"
    unfolding convert_files_to_txt_zip_def convert_file_zip_def
    by (intro convert_run_no_empty visit_file_no_empty extract_sanitize_write_no_empty assms)
  show "no_empty_file (world_of (convert_files_to_txt_utf8 env fs cfg t w))"
    unfolding convert_files_to_txt_utf8_def convert_file_utf8_def
    by (intro convert_run_no_empty visit_file_no_empty extract_sanitize_write_no_empty assms)
qed

subsection \<open>The output path\<close>

lemma rfind_from_notin: "c \<notin> set xs \<Longrightarrow> rfind_from c xs i best = best"
  by (induction xs arbitrary: i best) simp_all

lemma rfind_from_append:
  "rfind_from c (xs @ ys) i best = rfind_from c ys (i + int (length xs)) (rfind_from c xs i best)"
proof (induction xs arbitrary: i best)
  case Nil
  then show ?case by simp
next
  case (Cons x xs)
  show ?case by (simp add: Cons ac_simps)
qed

lemma rfind_from_shift:
  "c \<in> set xs \<Longrightarrow> rfind_from c xs (i + k) best = k + rfind_from c xs i best'"
proof (induction xs arbitrary: i best best')
  case Nil
  then show ?case by simp
next
  case (Cons x xs)
  show ?case
  proof (cases "c \<in> set xs")
    case True
    have "rfind_from c xs (i + 1 + k) (if x = c then i + k else best) =
          k + rfind_from c xs (i + 1) (if x = c then i else best')"
      using True by (rule Cons.IH)
    then show ?thesis by (simp add: ac_simps)
  next
    case False
    with Cons.prems have "x = c" by simp
    with False show ?thesis by (simp add: rfind_from_notin)
  qed
qed

lemma rfind_from_bounds:
  "c \<in> set xs \<Longrightarrow> i \<le> rfind_from c xs i best \<and> rfind_from c xs i best < i + int (length xs)"
proof (induction xs arbitrary: i best)
  case Nil
  then show ?case by simp
next
  case (Cons x xs)
  show ?case
  proof (cases "c \<in> set xs")
    case True
    from Cons.IH [OF True, of "i + 1" "if x = c then i else best"]
    show ?thesis by simp
  next
    case False
    with Cons.prems have "x = c" by simp
    with False show ?thesis by (simp add: rfind_from_notin)
  qed
qed

lemma rfind_notin: "c \<notin> set p \<Longrightarrow> rfind p c = - 1"
  by (simp add: rfind_def rfind_from_notin)

lemma rfind_bounds: "c \<in> set p \<Longrightarrow> 0 \<le> rfind p c \<and> rfind p c < int (length p)"
  using rfind_from_bounds [of c p 0 "- 1"] by (simp add: rfind_def)

lemma rfind_upper: "rfind p c < int (length p)"
proof (cases "c \<in> set p")
  case True
  then show ?thesis by (simp add: rfind_bounds)
next
  case False
  then have "rfind p c = - 1" by (rule rfind_notin)
  then show ?thesis by simp
qed

lemma rfind_append_in:
  assumes "c \<in> set ys"
  shows "rfind (xs @ ys) c = int (length xs) + rfind ys c"
proof -
  have "rfind (xs @ ys) c = rfind_from c ys (0 + int (length xs)) (rfind_from c xs 0 (- 1))"
    by (simp add: rfind_def rfind_from_append)
  also have "\<dots> = int (length xs) + rfind_from c ys 0 (- 1)"
    using assms by (rule rfind_from_shift)
  finally show ?thesis by (simp add: rfind_def)
qed

lemma rfind_append_notin:
  assumes "c \<notin> set ys"
  shows "rfind (xs @ ys) c = rfind xs c"
  using assms by (simp add: rfind_def rfind_from_append rfind_from_notin)

lemma skip_leading_dots_shift:
  "skip_leading_dots (pre @ f) (length pre + i) (length pre + d) =
     (pre @ fst (skip_leading_dots f i d), snd (skip_leading_dots f i d))"
proof (induction f i d rule: skip_leading_dots.induct)
  case (1 p filenameIndex dotIndex)
  show ?case
  proof (cases "filenameIndex < dotIndex")
    case False
    then show ?thesis
      by (simp add: skip_leading_dots.simps [of p] skip_leading_dots.simps [of "pre @ p"])
  next
    case True
    show ?thesis
    proof (cases "take 1 (drop filenameIndex p) \<noteq> [46]")
      case dot: True
      with True show ?thesis
        by (simp add: skip_leading_dots.simps [of p] skip_leading_dots.simps [of "pre @ p"])
    next
      case nodot: False
      have "skip_leading_dots (pre @ p) (length pre + (filenameIndex + 1)) (length pre + dotIndex) =
            (pre @ fst (skip_leading_dots p (filenameIndex + 1) dotIndex),
             snd (skip_leading_dots p (filenameIndex + 1) dotIndex))"
        using True nodot by (rule "1.IH")
      moreover have "length pre + (filenameIndex + 1) = length pre + filenameIndex + 1" by simp
      ultimately show ?thesis
        using True nodot
        by (simp add: skip_leading_dots.simps [of p filenameIndex]
              skip_leading_dots.simps [of "pre @ p" "length pre + filenameIndex"])
    qed
  qed
qed

lemma splitext_in_dir:
  assumes "47 \<notin> set f"
  shows "splitext (pre @ [47] @ f) = (pre @ [47] @ fst (splitext f), snd (splitext f))"
proof -
  let ?pre = "pre @ [47]"
  have sep: "rfind (?pre @ f) 47 = int (length pre)"
  proof -
    have "rfind (?pre @ f) 47 = rfind ?pre 47" using assms by (rule rfind_append_notin)
    also have "\<dots> = int (length pre) + rfind [47] 47"
      by (rule rfind_append_in) simp
    also have "rfind [47] 47 = 0" by (simp add: rfind_def)
    finally show ?thesis by simp
  qed
  have sepf: "rfind f 47 = - 1" using assms by (rule rfind_notin)
  show ?thesis
  proof (cases "46 \<in> set f")
    case True
    then have dot: "rfind (?pre @ f) 46 = int (length ?pre) + rfind f 46"
      by (rule rfind_append_in)
    from True have k: "0 \<le> rfind f 46" by (simp add: rfind_bounds)
    have 1: "nat (rfind (?pre @ f) 47 + 1) = length ?pre + 0"
      by (simp add: sep del: append_assoc)
    have 2: "nat (rfind (?pre @ f) 46) = length ?pre + nat (rfind f 46)"
      using k by (simp add: dot nat_add_distrib del: append_assoc)
    have gt: "rfind (?pre @ f) 46 > rfind (?pre @ f) 47"
      using k by (simp add: sep dot del: append_assoc)
    have "splitext (?pre @ f) =
          skip_leading_dots (?pre @ f) (nat (rfind (?pre @ f) 47 + 1)) (nat (rfind (?pre @ f) 46))"
      unfolding splitext_def Let_def using gt by (simp only: if_True)
    also have "\<dots> = skip_leading_dots (?pre @ f) (length ?pre + 0) (length ?pre + nat (rfind f 46))"
      by (simp only: 1 2)
    also have "\<dots> = (?pre @ fst (skip_leading_dots f 0 (nat (rfind f 46))),
                      snd (skip_leading_dots f 0 (nat (rfind f 46))))"
      by (rule skip_leading_dots_shift)
    also have "skip_leading_dots f 0 (nat (rfind f 46)) = splitext f"
      using k by (simp add: splitext_def sepf Let_def)
    finally show ?thesis by simp
  next
    case False
    then have "rfind (?pre @ f) 46 = rfind ?pre 46" by (rule rfind_append_notin)
    also have "\<dots> = rfind pre 46" by (rule rfind_append_notin) simp
    also have "\<dots> < int (length pre)" by (rule rfind_upper)
    finally have "rfind (?pre @ f) 46 < rfind (?pre @ f) 47" by (simp only: sep)
    then have "\<not> rfind (?pre @ f) 46 > rfind (?pre @ f) 47" by (rule less_not_sym)
    then have "splitext (?pre @ f) = (?pre @ f, [])"
      unfolding splitext_def Let_def by (simp only: if_False)
    moreover from False have "splitext f = (f, [])"
      by (simp add: splitext_def Let_def rfind_notin sepf)
    ultimately show ?thesis by simp
  qed
qed

lemma startswith_sep: "startswith s [47] \<longleftrightarrow> s \<noteq> [] \<and> hd s = 47"
  by (cases s) (simp_all add: startswith_def)

lemma endswith_sep: "endswith s [47] \<longleftrightarrow> s \<noteq> [] \<and> last s = 47"
proof (cases s rule: rev_cases)
  case Nil
  then show ?thesis by (simp add: endswith_def)
next
  case (snoc xs x)
  then show ?thesis by (simp add: endswith_def)
qed

lemma entry_name_not_abs: "entry_name d \<Longrightarrow> \<not> startswith d [47]"
  by (cases d) (simp_all add: entry_name_def startswith_def)

lemma join_one:
  assumes "\<not> startswith b [47]"
  shows "os_path_join path [b] =
           (if path = [] \<or> endswith path [47] then path @ b else path @ [47] @ b)"
  using assms by simp

lemma join_one_ne: "path \<noteq> [] \<Longrightarrow> \<not> startswith b [47] \<Longrightarrow> os_path_join path [b] \<noteq> []"
  by simp

lemma join_one_abs:
  assumes "path \<noteq> []" and "\<not> startswith b [47]"
  shows "startswith (os_path_join path [b]) [47] \<longleftrightarrow> startswith path [47]"
  using assms by (cases path) (simp_all add: startswith_def)

lemma join_one_ends:
  assumes "entry_name b"
  shows "\<not> endswith (os_path_join path [b]) [47]"
proof -
  from assms have ne: "b \<noteq> []" and free: "47 \<notin> set b" and rel: "\<not> startswith b [47]"
    by (simp_all add: entry_name_def entry_name_not_abs)
  from ne have "last b \<in> set b" by simp
  with free have "last b \<noteq> 47" by metis
  with ne rel show ?thesis by (simp add: endswith_sep)
qed

lemma split_from_ne: "split_from sep cur xs \<noteq> []"
  by (induction xs arbitrary: cur) simp_all

lemma split_from_nosep: "sep \<notin> set xs \<Longrightarrow> split_from sep cur xs = [cur @ xs]"
  by (induction xs arbitrary: cur) simp_all

lemma split_from_append:
  "split_from sep cur (xs @ ys) =
     butlast (split_from sep cur xs) @ split_from sep (last (split_from sep cur xs)) ys"
proof (induction xs arbitrary: cur)
  case Nil
  then show ?case by simp
next
  case (Cons x xs)
  then show ?case by (simp add: split_from_ne)
qed

lemma split_from_sep_free:
  "sep \<notin> set cur \<Longrightarrow> \<forall>c \<in> set (split_from sep cur xs). sep \<notin> set c"
proof (induction xs arbitrary: cur)
  case Nil
  then show ?case by simp
next
  case (Cons x xs)
  show ?case
  proof (cases "x = sep")
    case True
    have "\<forall>c \<in> set (split_from sep [] xs). sep \<notin> set c"
      by (rule Cons.IH) simp
    with True Cons.prems show ?thesis by simp
  next
    case False
    with Cons.prems have "sep \<notin> set (cur @ [x])" by simp
    then have "\<forall>c \<in> set (split_from sep (cur @ [x]) xs). sep \<notin> set c"
      by (rule Cons.IH)
    with False show ?thesis by simp
  qed
qed

lemma last_split_trailing_sep: "last (split_from sep cur (xs @ [sep])) = []"
  by (simp add: split_from_append)

lemma normpath_loop_append:
  "normpath_loop i acc (xs @ ys) = normpath_loop i (normpath_loop i acc xs) ys"
  by (induction xs arbitrary: acc) simp_all

lemma normpath_loop_entry: "entry_name d \<Longrightarrow> normpath_loop i acc [d] = acc @ [d]"
  by (simp add: entry_name_def)

lemma normpath_loop_ini:
  "i \<noteq> 0 \<Longrightarrow> j \<noteq> 0 \<Longrightarrow> normpath_loop i acc cs = normpath_loop j acc cs"
  by (induction cs arbitrary: acc) simp_all

text \<open>Joining a name onto a path adds one component to what \<open>normpath\<close> collects.\<close>

lemma normpath_loop_join:
  assumes "q \<noteq> []" and "entry_name d"
  shows "normpath_loop i acc (str_split (os_path_join q [d]) 47) =
         normpath_loop i acc (str_split q 47) @ [d]"
proof -
  from assms(2) have d: "47 \<notin> set d" "\<not> startswith d [47]"
    by (simp_all add: entry_name_def entry_name_not_abs)
  have e: "\<And>a. normpath_loop i a [d] = a @ [d]"
    using assms(2) by (rule normpath_loop_entry)
  let ?s = "split_from 47 [] q"
  have s: "?s = butlast ?s @ [last ?s]" by (simp add: split_from_ne)
  show ?thesis
  proof (cases "endswith q [47]")
    case True
    then obtain q0 where q: "q = q0 @ [47]"
      by (cases q rule: rev_cases) (simp_all add: endswith_sep)
    then have l: "last ?s = []" by (simp only: last_split_trailing_sep)
    have "split_from 47 [] (q @ d) = butlast ?s @ split_from 47 (last ?s) d"
      by (rule split_from_append)
    also have "\<dots> = butlast ?s @ [d]" using d(1) by (simp add: l split_from_nosep)
    finally have j: "split_from 47 [] (os_path_join q [d]) = butlast ?s @ [d]"
      using True d(2) by simp
    have "normpath_loop i acc ?s = normpath_loop i (normpath_loop i acc (butlast ?s)) [last ?s]"
      by (subst s) (rule normpath_loop_append)
    then have "normpath_loop i acc ?s = normpath_loop i acc (butlast ?s)" by (simp add: l)
    moreover have "normpath_loop i acc (butlast ?s @ [d]) = normpath_loop i acc (butlast ?s) @ [d]"
      by (simp only: normpath_loop_append e)
    ultimately show ?thesis unfolding str_split_def by (simp only: j)
  next
    case False
    have "split_from 47 [] (q @ [47] @ d) = butlast ?s @ split_from 47 (last ?s) ([47] @ d)"
      by (rule split_from_append)
    also have "\<dots> = butlast ?s @ [last ?s, d]" using d(1) by (simp add: split_from_nosep)
    also have "\<dots> = ?s @ [d]" using s by (metis append_Cons append_Nil append_assoc)
    finally have j: "split_from 47 [] (os_path_join q [d]) = ?s @ [d]"
      using False d(2) assms(1) by simp
    show ?thesis
      unfolding str_split_def by (simp only: j normpath_loop_append e)
  qed
qed

lemma walk_root_Nil: "walk_root top_dir [] = top_dir"
  by (simp add: walk_root_def)

lemma walk_root_Cons: "walk_root top_dir (d # ds) = walk_root (os_path_join top_dir [d]) ds"
  by (simp add: walk_root_def)

lemma walk_root_snoc: "walk_root top_dir (ds @ [d]) = os_path_join (walk_root top_dir ds) [d]"
  by (simp add: walk_root_def)

lemma walk_root_ne:
  "top_dir \<noteq> [] \<Longrightarrow> list_all entry_name names \<Longrightarrow> walk_root top_dir names \<noteq> []"
proof (induction names arbitrary: top_dir)
  case Nil
  then show ?case by (simp add: walk_root_Nil)
next
  case (Cons d names)
  from Cons.prems have "\<not> startswith d [47]" by (simp add: entry_name_not_abs)
  with Cons.prems have "os_path_join top_dir [d] \<noteq> []" by (simp add: join_one_ne)
  moreover from Cons.prems have "list_all entry_name names" by simp
  ultimately have "walk_root (os_path_join top_dir [d]) names \<noteq> []" by (rule Cons.IH)
  then show ?case by (simp add: walk_root_Cons del: os_path_join.simps)
qed

lemma walk_root_abs:
  "top_dir \<noteq> [] \<Longrightarrow> list_all entry_name names \<Longrightarrow>
   startswith (walk_root top_dir names) [47] \<longleftrightarrow> startswith top_dir [47]"
proof (induction names arbitrary: top_dir)
  case Nil
  then show ?case by (simp add: walk_root_Nil)
next
  case (Cons d names)
  from Cons.prems have rel: "\<not> startswith d [47]" by (simp add: entry_name_not_abs)
  with Cons.prems have ne: "os_path_join top_dir [d] \<noteq> []" by (simp add: join_one_ne)
  from Cons.prems have rest: "list_all entry_name names" by simp
  have "startswith (walk_root (os_path_join top_dir [d]) names) [47] \<longleftrightarrow>
        startswith (os_path_join top_dir [d]) [47]"
    using ne rest by (rule Cons.IH)
  also have "\<dots> \<longleftrightarrow> startswith top_dir [47]"
    using Cons.prems(1) rel by (rule join_one_abs)
  finally show ?case by (simp add: walk_root_Cons del: os_path_join.simps)
qed

lemma normpath_loop_walk:
  "q \<noteq> [] \<Longrightarrow> list_all entry_name names \<Longrightarrow>
   normpath_loop i acc (str_split (walk_root q names) 47) =
   normpath_loop i acc (str_split q 47) @ names"
proof (induction names arbitrary: q)
  case Nil
  then show ?case by (simp add: walk_root_Nil)
next
  case (Cons d names)
  from Cons.prems have d: "entry_name d" and rest: "list_all entry_name names" by simp_all
  from d have "\<not> startswith d [47]" by (rule entry_name_not_abs)
  with Cons.prems(1) have ne: "os_path_join q [d] \<noteq> []" by (simp add: join_one_ne)
  have "normpath_loop i acc (str_split (walk_root (os_path_join q [d]) names) 47) =
        normpath_loop i acc (str_split (os_path_join q [d]) 47) @ names"
    using ne rest by (rule Cons.IH)
  also have "normpath_loop i acc (str_split (os_path_join q [d]) 47) =
        normpath_loop i acc (str_split q 47) @ [d]"
    using Cons.prems(1) d by (rule normpath_loop_join)
  finally show ?case by (simp add: walk_root_Cons del: os_path_join.simps)
qed

lemma join_cwd_step:
  assumes "cwd0 \<noteq> []" and "x \<noteq> []" and "\<not> startswith x [47]" and "entry_name d"
  shows "os_path_join cwd0 [os_path_join x [d]] = os_path_join (os_path_join cwd0 [x]) [d]"
proof -
  from assms(4) have d: "\<not> startswith d [47]" by (rule entry_name_not_abs)
  from assms(2,3) have hx: "hd x \<noteq> 47" by (simp add: startswith_sep)
  show ?thesis
    using assms(1,2) d hx
    by (cases x) (auto simp add: startswith_sep endswith_sep)
qed

lemma join_cwd_walk:
  assumes "cwd0 \<noteq> []"
  shows "x \<noteq> [] \<Longrightarrow> \<not> startswith x [47] \<Longrightarrow> list_all entry_name names \<Longrightarrow>
         os_path_join cwd0 [walk_root x names] = walk_root (os_path_join cwd0 [x]) names"
proof (induction names arbitrary: x)
  case Nil
  then show ?case by (simp add: walk_root_Nil)
next
  case (Cons d names)
  from Cons.prems have d: "entry_name d" and rest: "list_all entry_name names" by simp_all
  from d have rel: "\<not> startswith d [47]" by (rule entry_name_not_abs)
  with Cons.prems(1) have ne: "os_path_join x [d] \<noteq> []" by (simp add: join_one_ne)
  have r: "\<not> startswith (os_path_join x [d]) [47]"
    using Cons.prems(2) join_one_abs [OF Cons.prems(1) rel] by simp
  have "os_path_join cwd0 [walk_root (os_path_join x [d]) names] =
        walk_root (os_path_join cwd0 [os_path_join x [d]]) names"
    using ne r rest by (rule Cons.IH)
  also have "os_path_join cwd0 [os_path_join x [d]] = os_path_join (os_path_join cwd0 [x]) [d]"
    using assms Cons.prems(1,2) d by (rule join_cwd_step)
  finally show ?case by (simp add: walk_root_Cons del: os_path_join.simps)
qed

lemma good_comps_butlast: "good_comps cs \<Longrightarrow> good_comps (butlast cs)"
  by (auto simp: good_comps_def list_all_iff dest: in_set_butlastD)

lemma normpath_loop_good:
  "good_comps acc \<Longrightarrow> \<forall>c \<in> set cs. 47 \<notin> set c \<Longrightarrow> good_comps (normpath_loop i acc cs)"
proof (induction cs arbitrary: acc)
  case Nil
  then show ?case by simp
next
  case (Cons c cs)
  from Cons.prems have rest: "\<forall>c \<in> set cs. 47 \<notin> set c" and c: "47 \<notin> set c" by simp_all
  have app: "c \<noteq> [] \<Longrightarrow> good_comps (acc @ [c])"
    using Cons.prems(1) c by (simp add: good_comps_def)
  have bl: "good_comps (butlast acc)"
    using Cons.prems(1) by (rule good_comps_butlast)
  show ?case
    using Cons.IH [OF Cons.prems(1) rest] Cons.IH [OF bl rest] Cons.IH [OF app rest]
    by auto
qed

lemma split_join_Cons:
  "\<forall>c \<in> set (x # xs). 47 \<notin> set c \<Longrightarrow>
   split_from 47 [] (str_join [47] (x # xs)) = x # xs"
proof (induction xs arbitrary: x)
  case Nil
  then show ?case by (simp add: split_from_nosep)
next
  case (Cons y ys)
  from Cons.prems have x: "47 \<notin> set x" and rest: "\<forall>c \<in> set (y # ys). 47 \<notin> set c" by simp_all
  have ih: "split_from 47 [] (str_join [47] (y # ys)) = y # ys"
    using rest by (rule Cons.IH)
  have "split_from 47 [] (x @ [47] @ str_join [47] (y # ys)) =
        butlast (split_from 47 [] x) @
        split_from 47 (last (split_from 47 [] x)) ([47] @ str_join [47] (y # ys))"
    by (rule split_from_append)
  also have "\<dots> = x # split_from 47 [] (str_join [47] (y # ys))"
    using x by (simp add: split_from_nosep)
  finally show ?case by (simp add: ih)
qed

lemma split_join:
  "comps \<noteq> [] \<Longrightarrow> \<forall>c \<in> set comps. 47 \<notin> set c \<Longrightarrow>
   split_from 47 [] (str_join [47] comps) = comps"
proof (cases comps)
  case Nil
  assume "comps \<noteq> []"
  with Nil show ?thesis by contradiction
next
  case (Cons x xs)
  assume "\<forall>c \<in> set comps. 47 \<notin> set c"
  then have "\<forall>c \<in> set (x # xs). 47 \<notin> set c" by (simp only: Cons)
  then have "split_from 47 [] (str_join [47] (x # xs)) = x # xs" by (rule split_join_Cons)
  then show ?thesis by (simp only: Cons)
qed

lemma split_leading_seps:
  "split_from 47 [] (replicate k 47 @ s) = replicate k [] @ split_from 47 [] s"
  by (induction k) simp_all

lemma filter_good: "good_comps cs \<Longrightarrow> filter (\<lambda>x. x \<noteq> []) cs = cs"
  by (simp add: good_comps_def list_all_iff)

lemma filter_empties: "filter (\<lambda>x. x \<noteq> []) (replicate k ([] :: pystr) @ cs) = filter (\<lambda>x. x \<noteq> []) cs"
  by (induction k) simp_all

lemma comps_of_rooted:
  assumes "good_comps cs"
  shows "filter (\<lambda>x. x \<noteq> []) (split_from 47 [] (replicate k 47 @ str_join [47] cs)) = cs"
proof (cases "cs = []")
  case True
  have "split_from 47 [] (replicate k 47 @ []) = replicate k [] @ split_from 47 [] []"
    by (rule split_leading_seps)
  then have "split_from 47 [] (replicate k 47) = replicate k [] @ [[]]" by simp
  with True show ?thesis by (simp add: filter_empties)
next
  case False
  from assms have "\<forall>c \<in> set cs. 47 \<notin> set c" by (simp add: good_comps_def list_all_iff)
  with False have "split_from 47 [] (str_join [47] cs) = cs" by (rule split_join)
  then show ?thesis using assms by (simp add: split_leading_seps filter_empties filter_good)
qed

text \<open>The components of the normalised form of an absolute path.\<close>

lemma comps_of_normpath:
  assumes "startswith p [47]"
  shows "filter (\<lambda>x. x \<noteq> []) (str_split (normpath p) 47) = normpath_loop 1 [] (str_split p 47)"
proof -
  from assms have ne: "p \<noteq> []" by (simp add: startswith_sep)
  have free: "\<forall>c \<in> set (str_split p 47). 47 \<notin> set c"
    unfolding str_split_def by (rule split_from_sep_free) simp
  have good: "\<And>i. good_comps (normpath_loop i [] (str_split p 47))"
    using free by (intro normpath_loop_good) (simp_all add: good_comps_def)
  have two: "normpath_loop 2 [] (str_split p 47) = normpath_loop 1 [] (str_split p 47)"
    by (rule normpath_loop_ini) simp_all
  show ?thesis
  proof (cases "startswith p [47, 47] \<and> \<not> startswith p [47, 47, 47]")
    case True
    with assms ne have "normpath p = replicate 2 47 @ str_join [47] (normpath_loop 2 [] (str_split p 47))"
      by (simp add: normpath_def Let_def)
    then have "filter (\<lambda>x. x \<noteq> []) (str_split (normpath p) 47) = normpath_loop 2 [] (str_split p 47)"
      unfolding str_split_def using good [of 2]
      by (simp only: comps_of_rooted str_split_def)
    with two show ?thesis by simp
  next
    case False
    with assms ne have "normpath p = replicate 1 47 @ str_join [47] (normpath_loop 1 [] (str_split p 47))"
      by (auto simp add: normpath_def Let_def)
    then show ?thesis
      unfolding str_split_def using good [of 1]
      by (simp only: comps_of_rooted str_split_def)
  qed
qed

lemma commonprefix_prefix: "commonprefix xs (xs @ ys) = xs"
proof (induction xs)
  case Nil
  then show ?case by (cases ys) simp_all
next
  case (Cons x xs)
  then show ?case by simp
qed

lemma str_join_concat: "str_join [47] (a # p) = a @ concat (map (\<lambda>b. 47 # b) p)"
  by (induction p arbitrary: a) simp_all

lemma join_entries:
  "a \<noteq> [] \<Longrightarrow> last a \<noteq> 47 \<Longrightarrow> list_all entry_name p \<Longrightarrow>
   os_path_join a p = a @ concat (map (\<lambda>b. 47 # b) p)"
proof (induction p arbitrary: a)
  case Nil
  then show ?case by simp
next
  case (Cons b p)
  from Cons.prems have b: "entry_name b" and rest: "list_all entry_name p" by simp_all
  from b have rel: "\<not> startswith b [47]" by (rule entry_name_not_abs)
  from b have bne: "b \<noteq> []" and free: "47 \<notin> set b" by (simp_all add: entry_name_def)
  from bne have "last b \<in> set b" by simp
  with free have lb: "last b \<noteq> 47" by metis
  have step: "os_path_join a (b # p) = os_path_join (a @ [47] @ b) p"
    using Cons.prems(1,2) rel by (simp add: endswith_sep)
  have "os_path_join (a @ [47] @ b) p = (a @ [47] @ b) @ concat (map (\<lambda>b. 47 # b) p)"
    using bne lb rest by (intro Cons.IH) simp_all
  with step show ?case by simp
qed

lemma str_join_snoc: "ds \<noteq> [] \<Longrightarrow> str_join sep (ds @ [y]) = str_join sep ds @ sep @ y"
proof (induction ds rule: str_join.induct [of _ sep])
  case (1 sep)
  then show ?case by simp
next
  case (2 sep x)
  then show ?case by simp
next
  case (3 sep x y' ys)
  then show ?case by simp
qed

lemma splitext_free: "47 \<notin> set f \<Longrightarrow> 47 \<notin> set (fst (splitext f))"
proof -
  assume f: "47 \<notin> set f"
  have "\<And>i d. fst (skip_leading_dots f i d) = f \<or> fst (skip_leading_dots f i d) = take d f"
  proof -
    fix i d
    show "fst (skip_leading_dots f i d) = f \<or> fst (skip_leading_dots f i d) = take d f"
      by (induction f i d rule: skip_leading_dots.induct)
         (subst (1 2) skip_leading_dots.simps, auto)
  qed
  then have "fst (splitext f) = f \<or> (\<exists>d. fst (splitext f) = take d f)"
    by (auto simp add: splitext_def Let_def)
  with f show ?thesis by (auto dest: in_set_takeD)
qed

lemma splitext_joined:
  assumes "47 \<notin> set f"
  shows "fst (splitext (str_join [47] (ds @ [f]))) = str_join [47] (ds @ [fst (splitext f)]) \<and>
         snd (splitext (str_join [47] (ds @ [f]))) = snd (splitext f)"
proof (cases "ds = []")
  case True
  then show ?thesis by simp
next
  case False
  then have "str_join [47] (ds @ [f]) = str_join [47] ds @ [47] @ f"
    by (rule str_join_snoc)
  moreover have "splitext (str_join [47] ds @ [47] @ f) =
      (str_join [47] ds @ [47] @ fst (splitext f), snd (splitext f))"
    using assms by (rule splitext_in_dir)
  moreover from False have "str_join [47] (ds @ [fst (splitext f)]) =
      str_join [47] ds @ [47] @ fst (splitext f)"
    by (rule str_join_snoc)
  ultimately show ?thesis by simp
qed

lemma entry_name_last: "entry_name a \<Longrightarrow> a \<noteq> [] \<and> last a \<noteq> 47"
proof -
  assume a: "entry_name a"
  then have ne: "a \<noteq> []" and free: "47 \<notin> set a" by (simp_all add: entry_name_def)
  from ne have "last a \<in> set a" by simp
  with free have "last a \<noteq> 47" by metis
  with ne show ?thesis by simp
qed

lemma join_names:
  assumes "list_all entry_name names" and "names = a # p"
  shows "os_path_join a p = str_join [47] names"
proof -
  from assms have a: "entry_name a" and p: "list_all entry_name p" by simp_all
  from a have "a \<noteq> []" and "last a \<noteq> 47" using entry_name_last by blast+
  then have "os_path_join a p = a @ concat (map (\<lambda>b. 47 # b) p)"
    using p by (rule join_entries)
  then show ?thesis by (simp only: assms(2) str_join_concat)
qed

lemma abspath_anchored: "abspath cwd0 path = normpath (anchored cwd0 path)"
  by (simp add: abspath_def anchored_def)

lemma anchored_abs:
  assumes "startswith cwd0 [47]"
  shows "startswith (anchored cwd0 path) [47]"
proof (cases "startswith path [47]")
  case True
  then show ?thesis by (simp add: anchored_def)
next
  case False
  from assms obtain c cs where "cwd0 = c # cs" and "c = 47"
    by (cases cwd0) (simp_all add: startswith_def)
  with False show ?thesis
    by (simp add: anchored_def startswith_def)
qed

lemma anchored_walk:
  assumes "startswith cwd0 [47]" and "top_dir \<noteq> []" and "list_all entry_name names"
  shows "anchored cwd0 (walk_root top_dir names) = walk_root (anchored cwd0 top_dir) names"
proof (cases "startswith top_dir [47]")
  case True
  moreover from True have "startswith (walk_root top_dir names) [47]"
    using walk_root_abs [OF assms(2,3)] by simp
  ultimately show ?thesis by (simp add: anchored_def)
next
  case False
  then have rel: "\<not> startswith (walk_root top_dir names) [47]"
    using walk_root_abs [OF assms(2,3)] by simp
  from assms(1) have "cwd0 \<noteq> []" by (simp add: startswith_sep)
  then have "os_path_join cwd0 [walk_root top_dir names] =
             walk_root (os_path_join cwd0 [top_dir]) names"
    using assms(2) False assms(3) by (rule join_cwd_walk)
  with False rel show ?thesis by (simp add: anchored_def del: os_path_join.simps)
qed

lemma relpath_walk:
  assumes cwd: "startswith cwd0 [47]" and top: "top_dir \<noteq> []"
    and names: "list_all entry_name names" and ne: "names \<noteq> []"
  shows "relpath cwd0 (walk_root top_dir names) top_dir = Inr (str_join [47] names)"
proof -
  define q where "q = anchored cwd0 top_dir"
  have q_abs: "startswith q [47]" unfolding q_def using cwd by (rule anchored_abs)
  then have q_ne: "q \<noteq> []" by (simp add: startswith_sep)
  define sl where "sl = normpath_loop 1 [] (str_split q 47)"
  have start_list: "filter (\<lambda>x. x \<noteq> []) (str_split (abspath cwd0 top_dir) 47) = sl"
    unfolding abspath_anchored sl_def q_def [symmetric] using q_abs by (rule comps_of_normpath)
  have w_abs: "startswith (walk_root q names) [47]"
    using walk_root_abs [OF q_ne names] q_abs by simp
  have aw: "anchored cwd0 (walk_root top_dir names) = walk_root q names"
    unfolding q_def using cwd top names by (rule anchored_walk)
  have "abspath cwd0 (walk_root top_dir names) = normpath (walk_root q names)"
    by (simp only: abspath_anchored aw)
  then have "filter (\<lambda>x. x \<noteq> []) (str_split (abspath cwd0 (walk_root top_dir names)) 47) =
             normpath_loop 1 [] (str_split (walk_root q names) 47)"
    using w_abs by (simp only: comps_of_normpath)
  also have "\<dots> = sl @ names"
    unfolding sl_def using q_ne names by (rule normpath_loop_walk)
  finally have path_list:
    "filter (\<lambda>x. x \<noteq> []) (str_split (abspath cwd0 (walk_root top_dir names)) 47) = sl @ names" .
  have path_ne: "walk_root top_dir names \<noteq> []" using top names by (rule walk_root_ne)
  from ne obtain a p where ap: "names = a # p" by (cases names) simp_all
  have j: "os_path_join a p = str_join [47] names" using names ap by (rule join_names)
  have "relpath cwd0 (walk_root top_dir names) top_dir =
        (case replicate (length sl - length (commonprefix sl (sl @ names))) [46, 46] @
              drop (length (commonprefix sl (sl @ names))) (sl @ names) of
           [] \<Rightarrow> Inr [46]
         | a # p \<Rightarrow> Inr (os_path_join a p))"
    using path_ne by (simp only: relpath_def Let_def start_list path_list if_False)
  also have "\<dots> = Inr (os_path_join a p)"
    by (simp add: commonprefix_prefix ap)
  finally show ?thesis by (simp only: j)
qed

lemma rel_txt_not_abs:
  assumes "list_all entry_name ds" and "47 \<notin> set base"
  shows "\<not> startswith (str_join [47] (ds @ [base]) @ 46 # t) [47]"
proof (cases ds)
  case Nil
  with assms(2) show ?thesis by (cases base) (simp_all add: startswith_def)
next
  case (Cons d ds')
  with assms(1) have "entry_name d" by simp
  then obtain c cs where d: "d = c # cs" and "c \<noteq> 47"
    by (cases d) (auto simp add: entry_name_def)
  have "str_join [47] (ds @ [base]) = d @ concat (map (\<lambda>b. 47 # b) (ds' @ [base]))"
    by (simp only: Cons append_Cons str_join_concat)
  with d \<open>c \<noteq> 47\<close> show ?thesis by (simp add: startswith_def)
qed

text \<open>
  C5. For a file \<open>file_name\<close> found by the walk below \<open>input_dir\<close> in the subdirectory
  reached through \<open>ds\<close>, the output path is the output directory joined with the
  relative directories \<open>ds\<close> and the file name without its extension, followed by
  \<open>.txt\<close>: the input root is stripped, the directory structure and the spelling of the
  directory names and of the base name are kept, and the extension that \<open>splitext\<close> finds
  is dropped whatever its case. The working directory is an absolute path, and the names
  are those a directory listing gives.
\<close>

theorem output_path_mirrors_input:
  assumes "startswith (cwd fs) [47]"
    and "input_dir0 \<noteq> []"
    and "list_all entry_name ds"
    and "entry_name file_name"
  shows "out_path_of fs input_dir0 output_dir0 (os_path_join (walk_root input_dir0 ds) [file_name]) =
           Inr (os_path_join output_dir0 [str_join [47] (ds @ [fst (splitext file_name)]) @ u ''.txt'']) \<and>
         os_path_join output_dir0 [str_join [47] (ds @ [fst (splitext file_name)]) @ u ''.txt''] =
           (if output_dir0 = [] \<or> endswith output_dir0 [47] then output_dir0 else output_dir0 @ [47]) @
           str_join [47] (ds @ [fst (splitext file_name)]) @ u ''.txt''"
proof
  from assms(4) have free: "47 \<notin> set file_name" by (simp add: entry_name_def)
  have names: "list_all entry_name (ds @ [file_name])" using assms(3,4) by simp
  have "relpath (cwd fs) (walk_root input_dir0 (ds @ [file_name])) input_dir0 =
        Inr (str_join [47] (ds @ [file_name]))"
    using assms(1,2) names by (rule relpath_walk) simp
  then have rel: "relpath (cwd fs) (os_path_join (walk_root input_dir0 ds) [file_name]) input_dir0 =
        Inr (str_join [47] (ds @ [file_name]))"
    by (simp only: walk_root_snoc)
  have base: "fst (splitext (str_join [47] (ds @ [file_name]))) =
        str_join [47] (ds @ [fst (splitext file_name)])"
    using splitext_joined [OF free] by blast
  show "out_path_of fs input_dir0 output_dir0 (os_path_join (walk_root input_dir0 ds) [file_name]) =
           Inr (os_path_join output_dir0 [str_join [47] (ds @ [fst (splitext file_name)]) @ u ''.txt''])"
    unfolding out_path_of_def Let_def by (simp only: rel base sum.case)
  have "47 \<notin> set (fst (splitext file_name))" using free by (rule splitext_free)
  with assms(3) have "\<not> startswith (str_join [47] (ds @ [fst (splitext file_name)]) @ 46 # [116, 120, 116]) [47]"
    by (rule rel_txt_not_abs)
  moreover have "u ''.txt'' = 46 # [116, 120, 116]" by (simp add: u_def)
  ultimately have "\<not> startswith (str_join [47] (ds @ [fst (splitext file_name)]) @ u ''.txt'') [47]"
    by simp
  then have "os_path_join output_dir0 [str_join [47] (ds @ [fst (splitext file_name)]) @ u ''.txt''] =
      (if output_dir0 = [] \<or> endswith output_dir0 [47]
       then output_dir0 @ (str_join [47] (ds @ [fst (splitext file_name)]) @ u ''.txt'')
       else output_dir0 @ [47] @ (str_join [47] (ds @ [fst (splitext file_name)]) @ u ''.txt''))"
    by (rule join_one)
  then show "os_path_join output_dir0 [str_join [47] (ds @ [fst (splitext file_name)]) @ u ''.txt''] =
           (if output_dir0 = [] \<or> endswith output_dir0 [47] then output_dir0 else output_dir0 @ [47]) @
           str_join [47] (ds @ [fst (splitext file_name)]) @ u ''.txt''"
    by (simp del: os_path_join.simps)
qed

text \<open>The witness: \<open>root/sub/doc.PDF\<close> with output root \<open>out/\<close> gives \<open>out/sub/doc.txt\<close>.\<close>

theorem output_path_mirrors_input_witness:
  "out_path_of demo_fs (u ''root'') (u ''out/'')
     (os_path_join (walk_root (u ''root'') [u ''sub'']) [u ''doc.PDF'']) = Inr (u ''out/sub/doc.txt'')"
proof -
  have 1: "startswith (cwd demo_fs) [47]" by (simp add: demo_fs_def startswith_def u_def)
  have 2: "u ''root'' \<noteq> []" by (simp add: u_def)
  have 3: "list_all entry_name [u ''sub'']" by (simp add: entry_name_def u_def)
  have 4: "entry_name (u ''doc.PDF'')" by (simp add: entry_name_def u_def)
  have "out_path_of demo_fs (u ''root'') (u ''out/'')
     (os_path_join (walk_root (u ''root'') [u ''sub'']) [u ''doc.PDF'']) =
      Inr (os_path_join (u ''out/'') [str_join [47] ([u ''sub''] @ [fst (splitext (u ''doc.PDF''))]) @ u ''.txt''])"
    using output_path_mirrors_input [OF 1 2 3 4] by (rule conjunct1)
  also have "\<dots> = Inr (u ''out/sub/doc.txt'')"
    by (simp add: eval_defs path_eval_defs)
  finally show ?thesis .
qed

subsection \<open>Files without text\<close>

text \<open>
  C6, as the code has it. In \<^verbatim>\<open>files_2_zip.py\<close> and \<^verbatim>\<open>raw_text_2_utf8.py\<close>, when the
  extracted and sanitised text of a file is empty or whitespace-only, the step for the
  file writes no file: the files of the world are those before the step.
  \<^verbatim>\<open>files_2_text.py\<close> writes the extracted text as it is, and there the same holds when
  the extracted text is empty or whitespace-only. When the output path was computed and
  \<open>os.makedirs\<close> did not raise for its directory, the step returns and the loop goes on
  with the remaining files. A run of any of the three scripts leaves no empty file as long
  as no write fails after \<open>open\<close> has created the file and before anything reached it.
\<close>

theorem empty_text_no_output:
  "(list_all (isspace (udb env))
       (sanitize_text (udb env) (fst (extract_text_from_file_zip env (os_path_join root [file_name]))))
      \<longrightarrow> files (world_of (convert_file_zip env fs cfg root file_name w)) = files w \<and>
          (\<forall>out_path.
             out_path_of fs (input_dir cfg) (output_dir cfg) (os_path_join root [file_name]) = Inr out_path \<and>
             makedirs_raises fs (dirname out_path) = None \<longrightarrow>
             (\<exists>w1. convert_file_zip env fs cfg root file_name w = Inr w1 \<and> files w1 = files w \<and>
                   files_loop (convert_file_zip env fs cfg root) (file_name # file_names) w =
                   files_loop (convert_file_zip env fs cfg root) file_names w1))) \<and>
   (list_all (isspace (udb env))
       (sanitize_text (udb env) (fst (extract_text_from_file_utf8 env (os_path_join root [file_name]))))
      \<longrightarrow> files (world_of (convert_file_utf8 env fs cfg root file_name w)) = files w \<and>
          (\<forall>out_path.
             out_path_of fs (input_dir cfg) (output_dir cfg) (os_path_join root [file_name]) = Inr out_path \<and>
             makedirs_raises fs (dirname out_path) = None \<longrightarrow>
             (\<exists>w1. convert_file_utf8 env fs cfg root file_name w = Inr w1 \<and> files w1 = files w \<and>
                   files_loop (convert_file_utf8 env fs cfg root) (file_name # file_names) w =
                   files_loop (convert_file_utf8 env fs cfg root) file_names w1))) \<and>
   (list_all (isspace (udb env)) (fst (extract_text_from_file env (os_path_join root [file_name])))
      \<longrightarrow> files (world_of (convert_file_text env fs cfg root file_name w)) = files w \<and>
          (\<forall>out_path.
             out_path_of fs (input_dir cfg) (output_dir cfg) (os_path_join root [file_name]) = Inr out_path \<and>
             makedirs_raises fs (dirname out_path) = None \<longrightarrow>
             (\<exists>w1. convert_file_text env fs cfg root file_name w = Inr w1 \<and> files w1 = files w \<and>
                   files_loop (convert_file_text env fs cfg root) (file_name # file_names) w =
                   files_loop (convert_file_text env fs cfg root) file_names w1))) \<and>
   (whole_writes fs \<and> no_empty_file w
      \<longrightarrow> no_empty_file (world_of (convert_files_to_txt_zip env fs cfg t w)) \<and>
          no_empty_file (world_of (convert_files_to_txt_utf8 env fs cfg t w)) \<and>
          no_empty_file (world_of (convert_files_to_txt env fs cfg t w)))"
proof (intro conjI impI)
  assume "list_all (isspace (udb env))
       (sanitize_text (udb env) (fst (extract_text_from_file_zip env (os_path_join root [file_name]))))"
  then show "files (world_of (convert_file_zip env fs cfg root file_name w)) = files w"
    unfolding convert_file_zip_def using sanitizing_step_skips by blast
next
  assume "list_all (isspace (udb env))
       (sanitize_text (udb env) (fst (extract_text_from_file_zip env (os_path_join root [file_name]))))"
  then show "\<forall>out_path.
             out_path_of fs (input_dir cfg) (output_dir cfg) (os_path_join root [file_name]) = Inr out_path \<and>
             makedirs_raises fs (dirname out_path) = None \<longrightarrow>
             (\<exists>w1. convert_file_zip env fs cfg root file_name w = Inr w1 \<and> files w1 = files w \<and>
                   files_loop (convert_file_zip env fs cfg root) (file_name # file_names) w =
                   files_loop (convert_file_zip env fs cfg root) file_names w1)"
    unfolding convert_file_zip_def by (rule sanitizing_step_skips [THEN conjunct2])
next
  assume "list_all (isspace (udb env))
       (sanitize_text (udb env) (fst (extract_text_from_file_utf8 env (os_path_join root [file_name]))))"
  then show "files (world_of (convert_file_utf8 env fs cfg root file_name w)) = files w"
    unfolding convert_file_utf8_def using sanitizing_step_skips by blast
next
  assume "list_all (isspace (udb env))
       (sanitize_text (udb env) (fst (extract_text_from_file_utf8 env (os_path_join root [file_name]))))"
  then show "\<forall>out_path.
             out_path_of fs (input_dir cfg) (output_dir cfg) (os_path_join root [file_name]) = Inr out_path \<and>
             makedirs_raises fs (dirname out_path) = None \<longrightarrow>
             (\<exists>w1. convert_file_utf8 env fs cfg root file_name w = Inr w1 \<and> files w1 = files w \<and>
                   files_loop (convert_file_utf8 env fs cfg root) (file_name # file_names) w =
                   files_loop (convert_file_utf8 env fs cfg root) file_names w1)"
    unfolding convert_file_utf8_def by (rule sanitizing_step_skips [THEN conjunct2])
next
  assume "list_all (isspace (udb env)) (fst (extract_text_from_file env (os_path_join root [file_name])))"
  then show "files (world_of (convert_file_text env fs cfg root file_name w)) = files w"
    unfolding convert_file_text_def using text_step_skips by blast
next
  assume "list_all (isspace (udb env)) (fst (extract_text_from_file env (os_path_join root [file_name])))"
  then show "\<forall>out_path.
             out_path_of fs (input_dir cfg) (output_dir cfg) (os_path_join root [file_name]) = Inr out_path \<and>
             makedirs_raises fs (dirname out_path) = None \<longrightarrow>
             (\<exists>w1. convert_file_text env fs cfg root file_name w = Inr w1 \<and> files w1 = files w \<and>
                   files_loop (convert_file_text env fs cfg root) (file_name # file_names) w =
                   files_loop (convert_file_text env fs cfg root) file_names w1)"
    unfolding convert_file_text_def by (rule text_step_skips [THEN conjunct2])
next
  assume "whole_writes fs \<and> no_empty_file w"
  then show "no_empty_file (world_of (convert_files_to_txt_zip env fs cfg t w))"
    using run_leaves_no_empty_file(2) by blast
next
  assume "whole_writes fs \<and> no_empty_file w"
  then show "no_empty_file (world_of (convert_files_to_txt_utf8 env fs cfg t w))"
    using run_leaves_no_empty_file(3) by blast
next
  assume "whole_writes fs \<and> no_empty_file w"
  then show "no_empty_file (world_of (convert_files_to_txt env fs cfg t w))"
    using run_leaves_no_empty_file(1) by blast
qed

text \<open>The witness is a text file holding a space and a newline, alone in its directory.\<close>

theorem empty_text_no_output_witness:
  "files (world_of (convert_file_zip (plaintext_env [32, 10]) demo_fs demo_cfg (u ''root'') (u ''blank.txt'')
                      empty_world)) = files empty_world \<and>
   files (world_of (convert_file_text (plaintext_env [32, 10]) demo_fs demo_cfg (u ''root'') (u ''blank.txt'')
                      empty_world)) = files empty_world \<and>
   no_empty_file (world_of (convert_files_to_txt_zip (plaintext_env [32, 10]) demo_fs demo_cfg
                              (Dir [u ''blank.txt''] []) empty_world))"
proof -
  have x: "fst (extract_text_from_file_zip (plaintext_env [32, 10]) (os_path_join (u ''root'') [u ''blank.txt''])) = [32, 10]"
    by (simp add: extract_text_from_file_zip_def read_plaintext_def plaintext_env_def eval_defs path_eval_defs)
  have y: "fst (extract_text_from_file (plaintext_env [32, 10]) (os_path_join (u ''root'') [u ''blank.txt''])) = [32, 10]"
    by (simp add: extract_text_from_file_def read_plaintext_def plaintext_env_def eval_defs path_eval_defs)
  have d: "udb (plaintext_env [32, 10]) = ascii_db"
    by (simp add: plaintext_env_def demo_env_def)
  have 1: "list_all (isspace (udb (plaintext_env [32, 10])))
       (sanitize_text (udb (plaintext_env [32, 10]))
          (fst (extract_text_from_file_zip (plaintext_env [32, 10]) (os_path_join (u ''root'') [u ''blank.txt'']))))"
    unfolding x d by (simp add: sanitize_text_def str_strip_def ascii_db_def)
  have 2: "list_all (isspace (udb (plaintext_env [32, 10])))
       (fst (extract_text_from_file (plaintext_env [32, 10]) (os_path_join (u ''root'') [u ''blank.txt''])))"
    unfolding y d by (simp add: ascii_db_def)
  have 3: "whole_writes demo_fs \<and> no_empty_file empty_world"
    by (simp add: whole_writes_def no_empty_file_def demo_fs_def empty_world_def)
  show ?thesis
    using empty_text_no_output [of "plaintext_env [32, 10]" "u ''root''" "u ''blank.txt''" demo_fs demo_cfg
        empty_world "[]" "Dir [u ''blank.txt''] []"] 1 2 3
    by blast
qed

lemma demo_full_path: "os_path_join (u ''root'') [u ''x.txt''] = u ''root/x.txt''"
  by (simp add: u_def path_eval_defs)

lemma demo_out_path:
  assumes "cwd fs = u ''/home/me''"
  shows "out_path_of fs (u ''root'') (u ''out/'') (u ''root/x.txt'') = Inr (u ''out/x.txt'')"
proof -
  have 1: "startswith (u ''/home/me'') [47]" by (simp add: startswith_def u_def)
  have 2: "u ''root'' \<noteq> []" by (simp add: u_def)
  have 3: "list_all entry_name [u ''x.txt'']" by (simp add: entry_name_def u_def)
  have "relpath (u ''/home/me'') (walk_root (u ''root'') [u ''x.txt'']) (u ''root'') =
        Inr (str_join [47] [u ''x.txt''])"
    using 1 2 3 by (rule relpath_walk) simp
  moreover have "walk_root (u ''root'') [u ''x.txt''] = u ''root/x.txt''"
    by (simp add: walk_root_def u_def path_eval_defs)
  ultimately have "relpath (u ''/home/me'') (u ''root/x.txt'') (u ''root'') = Inr (u ''x.txt'')"
    by simp
  moreover have "fst (splitext (u ''x.txt'')) = u ''x''" by (simp add: eval_defs)
  moreover have "os_path_join (u ''out/'') [u ''x'' @ u ''.txt''] = u ''out/x.txt''"
    by (simp add: u_def path_eval_defs)
  ultimately show ?thesis
    by (simp add: out_path_of_def assms Let_def del: os_path_join.simps)
qed

lemma demo_visit:
  assumes "udb env = ascii_db" and "cwd fs = u ''/home/me''" and "getsize fs = (\<lambda>p. Inr 1)"
  shows "visit_file env fs demo_cfg rest (u ''root'') (u ''x.txt'') w =
           (case makedirs_raises fs (u ''out'') of
              Some e \<Rightarrow> Inl (e, w)
            | None \<Rightarrow> Inr (rest (u ''root/x.txt'') (u ''out/x.txt'')
                             (w \<lparr> made_dirs := made_dirs w @ [u ''out''] \<rparr>)))"
proof -
  have h: "\<not> startswith (u ''x.txt'') [46]" by (simp add: startswith_def u_def)
  have e: "str_lower ascii_db (snd (splitext (u ''x.txt''))) \<in> set allowed_extensions"
    by (simp add: eval_defs allowed_extensions_def)
  have d: "dirname (u ''out/x.txt'') = u ''out''"
    by (simp add: dirname_def rfind_def u_def)
  have c: "input_dir demo_cfg = u ''root''" "output_dir demo_cfg = u ''out/''"
    "max_file_size demo_cfg = 5 * 1024 * 1024"
    by (simp_all add: demo_cfg_def)
  show ?thesis
    unfolding visit_file_def Let_def
    by (simp add: h e d c assms demo_full_path demo_out_path [OF assms(2)]
          split: option.split del: os_path_join.simps)
qed

lemma demo_extract:
  "extract_text_from_file (plaintext_env content) (u ''root/x.txt'') = (content, [])"
  "extract_text_from_file_zip (plaintext_env content) (u ''root/x.txt'') = (content, [])"
  by (simp_all add: extract_text_from_file_def extract_text_from_file_zip_def read_plaintext_def
        plaintext_env_def eval_defs)

lemma demo_udb: "udb (plaintext_env content) = ascii_db"
  by (simp add: plaintext_env_def demo_env_def)

lemma demo_fs_facts:
  "cwd demo_fs = u ''/home/me''" "getsize demo_fs = (\<lambda>p. Inr 1)"
  "cwd blocked_fs = u ''/home/me''" "getsize blocked_fs = (\<lambda>p. Inr 1)"
  "cwd truncating_fs = u ''/home/me''" "getsize truncating_fs = (\<lambda>p. Inr 1)"
  by (simp_all add: demo_fs_def blocked_fs_def truncating_fs_def)

text \<open>
  Three runs where the statement without these conditions fails. A file holding one NUL
  character has an empty sanitised text, and \<^verbatim>\<open>files_2_text.py\<close> writes it, since
  \<open>"\\0".strip()\<close> is not empty. When \<open>os.makedirs\<close> raises for the directory of a file
  without text, the exception leaves the loop and the next file is not visited. When
  \<open>write\<close> fails after \<open>open\<close> has created the file, an empty file is left.
\<close>

theorem empty_text_output_counterexample:
  "sanitize_text (udb (plaintext_env [0]))
     (fst (extract_text_from_file (plaintext_env [0]) (os_path_join (u ''root'') [u ''x.txt'']))) = [] \<and>
   files (world_of (convert_file_text (plaintext_env [0]) demo_fs demo_cfg (u ''root'') (u ''x.txt'')
                      empty_world)) (u ''out/x.txt'') = Some [0] \<and>
   sanitize_text (udb (plaintext_env []))
     (fst (extract_text_from_file_zip (plaintext_env []) (os_path_join (u ''root'') [u ''x.txt'']))) = [] \<and>
   files_loop (convert_file_zip (plaintext_env []) blocked_fs demo_cfg (u ''root''))
     [u ''x.txt'', u ''y.txt''] empty_world = Inl (Exn ''PermissionError'', empty_world) \<and>
   files (world_of (convert_file_zip (plaintext_env (u ''hi'')) truncating_fs demo_cfg (u ''root'') (u ''x.txt'')
                      empty_world)) (u ''out/x.txt'') = Some []"
proof (intro conjI)
  show "sanitize_text (udb (plaintext_env [0]))
     (fst (extract_text_from_file (plaintext_env [0]) (os_path_join (u ''root'') [u ''x.txt'']))) = []"
    by (simp add: demo_full_path demo_extract demo_udb sanitize_text_def str_strip_def ascii_db_def
          del: os_path_join.simps)
  have "convert_file_text (plaintext_env [0]) demo_fs demo_cfg (u ''root'') (u ''x.txt'') empty_world =
        Inr (extract_write (plaintext_env [0]) demo_fs (u ''root/x.txt'') (u ''out/x.txt'')
               (empty_world \<lparr> made_dirs := made_dirs empty_world @ [u ''out''] \<rparr>))"
    unfolding convert_file_text_def demo_visit [OF demo_udb demo_fs_facts(1,2)]
    by (simp add: demo_fs_def)
  then show "files (world_of (convert_file_text (plaintext_env [0]) demo_fs demo_cfg (u ''root'') (u ''x.txt'')
                      empty_world)) (u ''out/x.txt'') = Some [0]"
    by (simp add: extract_write_def demo_extract demo_udb write_text_def log_call_def str_strip_def
          ascii_db_def demo_fs_def)
  show "sanitize_text (udb (plaintext_env []))
     (fst (extract_text_from_file_zip (plaintext_env []) (os_path_join (u ''root'') [u ''x.txt'']))) = []"
    by (simp add: demo_full_path demo_extract demo_udb sanitize_text_def str_strip_def ascii_db_def
          del: os_path_join.simps)
  have "convert_file_zip (plaintext_env []) blocked_fs demo_cfg (u ''root'') (u ''x.txt'') empty_world =
        Inl (Exn ''PermissionError'', empty_world)"
    unfolding convert_file_zip_def demo_visit [OF demo_udb demo_fs_facts(3,4)]
    by (simp add: blocked_fs_def)
  then show "files_loop (convert_file_zip (plaintext_env []) blocked_fs demo_cfg (u ''root''))
     [u ''x.txt'', u ''y.txt''] empty_world = Inl (Exn ''PermissionError'', empty_world)"
    by simp
  have "convert_file_zip (plaintext_env (u ''hi'')) truncating_fs demo_cfg (u ''root'') (u ''x.txt'') empty_world =
        Inr (extract_sanitize_write extract_text_from_file_zip (plaintext_env (u ''hi'')) truncating_fs
               (u ''root/x.txt'') (u ''out/x.txt'')
               (empty_world \<lparr> made_dirs := made_dirs empty_world @ [u ''out''] \<rparr>))"
    unfolding convert_file_zip_def demo_visit [OF demo_udb demo_fs_facts(5,6)]
    by (simp add: truncating_fs_def demo_fs_def)
  moreover have "sanitize_text ascii_db (u ''hi'') \<noteq> []"
    by (simp add: sanitize_text_def str_strip_def ascii_db_def u_def)
  ultimately show "files (world_of (convert_file_zip (plaintext_env (u ''hi'')) truncating_fs demo_cfg (u ''root'') (u ''x.txt'')
                      empty_world)) (u ''out/x.txt'') = Some []"
    by (simp add: extract_sanitize_write_def demo_extract demo_udb write_text_def log_call_def
          truncating_fs_def)
qed

end
